theory Spec2Isabelle
  imports Main "HOL-Library.Multiset"
begin

section \<open>The Python node printer of prettier: \<open>src/printer-python.js\<close>\<close>

text \<open>
  The printer receives the abstract syntax tree of a Python program as the JSON value the
  parser hands over, and maps every node to a document fragment. The code is dynamically
  typed JavaScript: a node is an object whose field \<open>ast_type\<close> is its tag, and every
  other field is read by name. The embedding keeps that: nodes are JSON values, field reads
  are lookups, and what JavaScript does on a value of the wrong shape (a \<open>TypeError\<close> on a
  property read of \<open>null\<close> or \<open>undefined\<close>, \<open>undefined\<close> for an absent field) is part of
  the model.
\<close>

subsection \<open>Values\<close>

text \<open>
  A JSON value. Numbers are the integers (Python's \<open>col_offset\<close> and integer literals);
  floating point numbers are outside the model. An object is the list of its fields, read
  by \<open>map_of\<close> (the first binding of a name).
\<close>

datatype json =
    JNull
  | JBool bool
  | JNum int
  | JStr string
  | JArr "json list"
  | JObj "(string \<times> json) list"

text \<open>A JavaScript value is a JSON value or \<open>undefined\<close> (\<open>None\<close>): the value of an
  absent field and of an index out of range.\<close>

type_synonym jsval = "json option"

text \<open>
  The two ways the printer fails: the \<open>Error\<close> thrown by the default case of the
  dispatch (the spec's UnsupportedNodeKind; it carries the offending \<open>ast_type\<close>, which the
  message shows through \<open>JSON.stringify\<close>), and the \<open>TypeError\<close> of the JavaScript runtime
  on a property read of \<open>null\<close> or \<open>undefined\<close> and on spreading a value that is not
  iterable.
\<close>

datatype error = UnsupportedNodeKind jsval | TypeError

type_synonym 'a result = "error + 'a"

text \<open>Sequencing of fallible steps: a \<open>throw\<close> leaves the function at once.\<close>

definition bindE :: "'a result \<Rightarrow> ('a \<Rightarrow> 'b result) \<Rightarrow> 'b result" where
  "bindE m f = (case m of Inl e \<Rightarrow> Inl e | Inr x \<Rightarrow> f x)"

text \<open>A callback applied to the elements of an array in index order (\<open>Array.map\<close>, the
  loop of \<open>path.map\<close>); the first \<open>throw\<close> ends it.\<close>

fun mapE :: "('a \<Rightarrow> 'b result) \<Rightarrow> 'a list \<Rightarrow> 'b list result" where
  "mapE f [] = Inr []"
| "mapE f (x # xs) = bindE (f x) (\<lambda>y. bindE (mapE f xs) (\<lambda>ys. Inr (y # ys)))"

subsection \<open>The JavaScript operations the printer uses\<close>

text \<open>\<open>!v\<close> is false exactly on the truthy values.\<close>

fun truthy :: "jsval \<Rightarrow> bool" where
  "truthy None = False"
| "truthy (Some JNull) = False"
| "truthy (Some (JBool b)) = b"
| "truthy (Some (JNum k)) = (k \<noteq> 0)"
| "truthy (Some (JStr s)) = (s \<noteq> [])"
| "truthy (Some (JArr xs)) = True"
| "truthy (Some (JObj fs)) = True"

text \<open>\<open>typeof v === "string"\<close>.\<close>

fun is_string :: "jsval \<Rightarrow> bool" where
  "is_string (Some (JStr s)) = True"
| "is_string v = False"

text \<open>
  The property read \<open>v.k\<close> (or \<open>v[k]\<close> with a name \<open>k\<close>). It throws on \<open>null\<close> and
  \<open>undefined\<close>; an object gives its field or \<open>undefined\<close>; arrays and strings have a
  \<open>length\<close>; no other property the printer names exists on an array, a string, a number
  or a boolean.
\<close>

fun get :: "jsval \<Rightarrow> string \<Rightarrow> jsval result" where
  "get None k = Inl TypeError"
| "get (Some JNull) k = Inl TypeError"
| "get (Some (JObj fs)) k = Inr (map_of fs k)"
| "get (Some (JArr xs)) k = Inr (if k = ''length'' then Some (JNum (int (length xs))) else None)"
| "get (Some (JStr s)) k = Inr (if k = ''length'' then Some (JNum (int (length s))) else None)"
| "get (Some (JBool b)) k = Inr None"
| "get (Some (JNum n)) k = Inr None"

text \<open>The indexed read \<open>v[i]\<close> on an array or a string: \<open>undefined\<close> out of range. (On
  any other value the printer reaches, no index is a property.)\<close>

fun index :: "jsval \<Rightarrow> nat \<Rightarrow> jsval" where
  "index (Some (JArr xs)) i = (if i < length xs then Some (xs ! i) else None)"
| "index (Some (JStr s)) i = (if i < length s then Some (JStr [s ! i]) else None)"
| "index v i = None"

text \<open>The spread \<open>[...v]\<close>: the elements of an array, the characters of a string, a
  \<open>TypeError\<close> on anything else (not iterable).\<close>

fun spread :: "jsval \<Rightarrow> json list result" where
  "spread (Some (JArr xs)) = Inr xs"
| "spread (Some (JStr s)) = Inr (map (\<lambda>c. JStr [c]) s)"
| "spread v = Inl TypeError"

text \<open>Decimal digits of a natural number, and the text of an integer.\<close>

fun digits :: "nat \<Rightarrow> string" where
  "digits n = (if n < 10 then [char_of (48 + n)] else digits (n div 10) @ [char_of (48 + n mod 10)])"

declare digits.simps [simp del]

definition show_int :: "int \<Rightarrow> string" where
  "show_int k = (if k < 0 then CHR ''-'' # digits (nat (- k)) else digits (nat k))"

text \<open>
  The conversion to a string of a template literal \<open>`${v}`\<close> (\<open>ToString\<close>). An array is
  its elements joined by a comma, with \<open>null\<close> as the empty string. (An integer beyond
  \<open>2^53\<close>, which a JavaScript number does not hold exactly, is outside the model.)
\<close>

fun join_commas :: "string list \<Rightarrow> string" where
  "join_commas [] = []"
| "join_commas [s] = s"
| "join_commas (s # t # ts) = s @ '','' @ join_commas (t # ts)"

fun to_string_json :: "json \<Rightarrow> string" where
  "to_string_json JNull = ''null''"
| "to_string_json (JBool b) = (if b then ''true'' else ''false'')"
| "to_string_json (JNum k) = show_int k"
| "to_string_json (JStr s) = s"
| "to_string_json (JArr xs) =
     join_commas (map (\<lambda>x. if x = JNull then [] else to_string_json x) xs)"
| "to_string_json (JObj fs) = ''[object Object]''"

definition to_string :: "jsval \<Rightarrow> string" where
  "to_string v = (case v of None \<Rightarrow> ''undefined'' | Some j \<Rightarrow> to_string_json j)"

text \<open>
  The test \<open>v > 0\<close> on a \<open>length\<close>: the length of an array or a string is a number,
  and \<open>undefined\<close> (the \<open>length\<close> of a number, a boolean or an object without such a
  field) converts to \<open>NaN\<close>, which is not greater. (A \<open>length\<close> field that holds a string,
  an array or an object would be parsed as a number by JavaScript; no value the parser
  produces has one, and the model compares it as not greater.)
\<close>

fun greater_zero :: "jsval \<Rightarrow> bool" where
  "greater_zero (Some (JNum k)) = (0 < k)"
| "greater_zero (Some (JBool b)) = b"
| "greater_zero v = False"

text \<open>
  The loose comparison \<open>v != "arg"\<close>. A string is compared as it is; an array is first
  converted to a string; \<open>undefined\<close>, \<open>null\<close>, numbers, booleans and objects never equal
  \<open>"arg"\<close>.
\<close>

fun loosely_differs :: "jsval \<Rightarrow> string \<Rightarrow> bool" where
  "loosely_differs (Some (JStr s)) t = (s \<noteq> t)"
| "loosely_differs (Some (JArr xs)) t = (to_string_json (JArr xs) \<noteq> t)"
| "loosely_differs v t = True"

text \<open>
  The sort of the merged list, \<open>.sort((a, b) => a.col_offset - b.col_offset)\<close>. The
  comparator reads \<open>col_offset\<close> of both elements, so it throws on a \<open>null\<close> element as
  soon as it is called, which is when the array has two elements or more. The sort is
  stable (\<open>sort_key\<close> is insertion sort). A \<open>col_offset\<close> that is absent or not a number
  makes the comparator return \<open>NaN\<close>; JavaScript then leaves the order to the engine, and
  the model files such an element under offset 0: the parser reports every \<open>col_offset\<close> as
  an integer, and the theorems below assume so where the order matters.
\<close>

fun col_offset :: "json \<Rightarrow> int" where
  "col_offset (JObj fs) = (case map_of fs ''col_offset'' of Some (JNum k) \<Rightarrow> k | _ \<Rightarrow> 0)"
| "col_offset v = 0"

definition sort_by_col_offset :: "json list \<Rightarrow> json list result" where
  "sort_by_col_offset xs =
     (if 2 \<le> length xs \<and> JNull \<in> set xs then Inl TypeError
      else Inr (sort_key col_offset xs))"

subsection \<open>Document fragments\<close>

text \<open>
  Modelled from the spec: the document builders of \<open>./doc-builders\<close> (\<open>concat\<close>, \<open>join\<close>,
  \<open>hardline\<close>, \<open>line\<close>, \<open>softline\<close>, \<open>group\<close>, \<open>indent\<close>), which the printer imports and
  only composes. A fragment is literal text, a concatenation, a group, an indentation or
  one of the three line breaks. The printer also returns field values as they are
  (\<open>return n.id\<close>), so a literal holds a JavaScript value; it is text when that value is a
  string.
\<close>

datatype doc =
    Lit jsval
  | Concat "doc list"
  | Group doc
  | Indent doc
  | Line
  | Softline
  | Hardline

abbreviation text_lit :: "string \<Rightarrow> doc" where
  "text_lit s \<equiv> Lit (Some (JStr s))"

text \<open>Modelled from the spec: \<open>join(sep, arr)\<close> of \<open>./doc-builders\<close>, "joined by": the
  concatenation of the elements with \<open>sep\<close> between each two.\<close>

fun join_parts :: "doc \<Rightarrow> doc list \<Rightarrow> doc list" where
  "join_parts sep [] = []"
| "join_parts sep [d] = [d]"
| "join_parts sep (d # e # ds) = d # sep # join_parts sep (e # ds)"

definition join :: "doc \<Rightarrow> doc list \<Rightarrow> doc" where
  "join sep arr = Concat (join_parts sep arr)"

text \<open>An element \<open>arr[i]\<close> of an array of fragments: \<open>undefined\<close> out of range.\<close>

definition doc_at :: "doc list \<Rightarrow> nat \<Rightarrow> doc" where
  "doc_at ds i = (if i < length ds then ds ! i else Lit None)"

text \<open>\<open>arr.map((d, i) => f(d, i))\<close> on an array of fragments.\<close>

definition map_index :: "(doc \<Rightarrow> nat \<Rightarrow> doc) \<Rightarrow> doc list \<Rightarrow> doc list" where
  "map_index f ds = map (\<lambda>(d, i). f d i) (zip ds [0 ..< length ds])"

text \<open>
  Modelled from the spec: the text the external renderer writes for a fragment when
  nothing breaks. A literal string is written as it is, a breakable space (\<open>line\<close>) is a
  space, a soft break is nothing, a mandatory break is a newline. A literal that is not a
  string is no valid text (\<open>None\<close>).
\<close>

fun flat_text :: "doc \<Rightarrow> string option" where
  "flat_text (Lit v) = (case v of Some (JStr s) \<Rightarrow> Some s | _ \<Rightarrow> None)"
| "flat_text (Concat ds) = map_option concat (those (map flat_text ds))"
| "flat_text (Group d) = flat_text d"
| "flat_text (Indent d) = flat_text d"
| "flat_text Line = Some '' ''"
| "flat_text Softline = Some []"
| "flat_text Hardline = Some [CHR 0x0A]"

subsection \<open>The path cursor\<close>

text \<open>
  Modelled from the spec: the path cursor (\<open>FastPath\<close>, outside this file), which exposes
  the current value and its parent node. At the root there is no parent.
\<close>

datatype path = Path (getValue: jsval) (getParentNode: jsval)

text \<open>
  Modelled from the spec: \<open>path.call(print, k)\<close>, the way to print a named field holding
  a single child. It moves to the field \<open>k\<close> of the current node and calls \<open>print\<close> there.
  The parent of the child is the current node.
\<close>

definition path_call :: "(path \<Rightarrow> doc result) \<Rightarrow> path \<Rightarrow> string \<Rightarrow> doc result" where
  "path_call print path k =
     bindE (get (getValue path) k) (\<lambda>v. print (Path v (getValue path)))"

text \<open>
  Modelled from the spec: \<open>path.call(print, k, i)\<close>, the way to print an indexed element
  of a named field holding a sequence. It moves to the field \<open>k\<close> and on to its element
  \<open>i\<close> (\<open>undefined\<close> when there is none), and calls \<open>print\<close> there. The parent of the
  element is the current node: the array between them is not a node.
\<close>

definition path_call_at :: "(path \<Rightarrow> doc result) \<Rightarrow> path \<Rightarrow> string \<Rightarrow> nat \<Rightarrow> doc result" where
  "path_call_at print path k i =
     bindE (get (getValue path) k) (\<lambda>v. print (Path (index v i) (getValue path)))"

text \<open>
  Modelled from the spec: \<open>path.map(print, k)\<close>, which calls \<open>print\<close> at every element of
  the sequence in the field \<open>k\<close>, in order, and returns the results. A field that holds no
  sequence has no elements to visit: reading its length is a \<open>TypeError\<close> on \<open>undefined\<close>
  and \<open>null\<close>, and the spec names no result for the other values, which the model
  refuses the same way.
\<close>

definition path_map :: "(path \<Rightarrow> doc result) \<Rightarrow> path \<Rightarrow> string \<Rightarrow> doc list result" where
  "path_map print path k =
     bindE (get (getValue path) k) (\<lambda>v.
       case v of
         Some (JArr xs) \<Rightarrow> mapE (\<lambda>x. print (Path (Some x) (getValue path))) xs
       | _ \<Rightarrow> Inl TypeError)"

subsection \<open>The argument merger: \<open>printArguments\<close>\<close>

text \<open>
  The loop of \<open>printArguments\<close> over the merged list. The list argument is what is left of
  \<open>merge\<close> from index \<open>i\<close> on; \<open>next\<close> is its second element, \<open>undefined\<close> when there is
  none. Each round prints the parameter under the cursor \<open>currentArgument\<close>; when \<open>next\<close>
  is truthy and its tag is not \<open>"arg"\<close> (\<open>next && next.ast_type != "arg"\<close>), it prints \<open>=\<close> and the default under the cursor
  \<open>currentDefault\<close>, and steps over \<open>next\<close>. The loop never looks at \<open>merge[i]\<close> itself.
\<close>

definition next_is_default :: "jsval \<Rightarrow> bool result" where
  "next_is_default next =
     (if truthy next then bindE (get next ''ast_type'') (\<lambda>t. Inr (loosely_differs t ''arg''))
      else Inr False)"

fun walk :: "(path \<Rightarrow> doc result) \<Rightarrow> path \<Rightarrow> string \<Rightarrow> string \<Rightarrow> json list \<Rightarrow> nat \<Rightarrow> nat \<Rightarrow> doc list result" where
  "walk print path argsKey defaultsKey [] currentArgument currentDefault = Inr []"
| "walk print path argsKey defaultsKey [m] currentArgument currentDefault =
     bindE (path_call_at print path argsKey currentArgument) (\<lambda>a.
     bindE (next_is_default None) (\<lambda>is_default.
       Inr [Concat [a]]))"
| "walk print path argsKey defaultsKey (m # next # rest) currentArgument currentDefault =
     bindE (path_call_at print path argsKey currentArgument) (\<lambda>a.
     bindE (next_is_default (Some next)) (\<lambda>is_default.
       if is_default then
         bindE (path_call_at print path defaultsKey currentDefault) (\<lambda>d.
         bindE (walk print path argsKey defaultsKey rest (currentArgument + 1) (currentDefault + 1)) (\<lambda>parts.
           Inr (Concat [a, text_lit ''='', d] # parts)))
       else
         bindE (walk print path argsKey defaultsKey (next # rest) (currentArgument + 1) currentDefault) (\<lambda>parts.
           Inr (Concat [a] # parts))))"

definition printArguments :: "(path \<Rightarrow> doc result) \<Rightarrow> path \<Rightarrow> string \<Rightarrow> string \<Rightarrow> doc list result" where
  "printArguments print path argsKey defaultsKey =
     (let n = getValue path in
      bindE (get n argsKey) (\<lambda>args.
      bindE (spread args) (\<lambda>as.
      bindE (get n defaultsKey) (\<lambda>defaults.
      bindE (spread defaults) (\<lambda>ds.
      bindE (sort_by_col_offset (as @ ds)) (\<lambda>merge.
        walk print path argsKey defaultsKey merge 0 0))))))"

subsection \<open>The node printer: \<open>genericPrint\<close>\<close>

text \<open>
  \<open>genericPrint(path, options, print)\<close>; \<open>options\<close> is never read and is left out. The
  \<open>switch\<close> compares \<open>n.ast_type\<close> with each label by strict equality, so a case is taken
  only when the tag is that very string. The steps of each case are in the order in which
  JavaScript evaluates them.
\<close>

text \<open>The test of the \<open>Tuple\<close> case,
  \<open>["List", "Tuple"].indexOf(path.getParentNode().ast_type) !== -1\<close>: it reads the tag of
  the parent (a \<open>TypeError\<close> when there is no parent) and looks it up by strict equality.\<close>

definition needsParens :: "path \<Rightarrow> bool result" where
  "needsParens path =
     bindE (get (getParentNode path) ''ast_type'') (\<lambda>parent_type.
       Inr (parent_type = Some (JStr ''List'') \<or> parent_type = Some (JStr ''Tuple'')))"

definition genericPrint :: "(path \<Rightarrow> doc result) \<Rightarrow> path \<Rightarrow> doc result" where
  "genericPrint print path =
  (let n = getValue path in
   if \<not> truthy n then Inr (text_lit [])
   else if is_string n then Inr (Lit n)
   else bindE (get n ''ast_type'') (\<lambda>ast_type.
     if ast_type = Some (JStr ''Module'') then
       bindE (path_map print path ''body'') (\<lambda>body.
         Inr (Concat [join (Concat [Hardline, Hardline]) body, Hardline]))
     else if ast_type = Some (JStr ''FunctionDef'') then
       bindE (path_call print path ''name'') (\<lambda>name.
       bindE (path_call print path ''args'') (\<lambda>args.
       bindE (path_map print path ''body'') (\<lambda>body.
         Inr (Concat [
           text_lit ''def '',
           name,
           Group (Concat [text_lit ''('', Indent (Concat [Softline, args]), Softline, text_lit '')'']),
           text_lit '':'',
           Indent (Concat [Line, Concat body])]))))
     else if ast_type = Some (JStr ''arguments'') then
       bindE (printArguments print path ''args'' ''defaults'') (\<lambda>parts.
       bindE (get n ''vararg'') (\<lambda>vararg.
       bindE (if truthy vararg
              then bindE (path_call print path ''vararg'') (\<lambda>v. Inr (parts @ [Concat [text_lit ''*'', v]]))
              else Inr parts) (\<lambda>parts.
       bindE (get n ''kwonlyargs'') (\<lambda>kwonlyargs.
       bindE (get kwonlyargs ''length'') (\<lambda>len.
       bindE (if greater_zero len
              then bindE (printArguments print path ''kwonlyargs'' ''kw_defaults'') (\<lambda>kw.
                     Inr ((parts @ [text_lit ''*'']) @ kw))
              else Inr parts) (\<lambda>parts.
       bindE (get n ''kwarg'') (\<lambda>kwarg.
       bindE (if truthy kwarg
              then bindE (path_call print path ''kwarg'') (\<lambda>k. Inr (parts @ [Concat [text_lit ''**'', k]]))
              else Inr parts) (\<lambda>parts.
         Inr (join (Concat [text_lit '', '', Softline]) parts)))))))))
     else if ast_type = Some (JStr ''arg'') then
       bindE (get n ''arg'') (\<lambda>arg. Inr (Lit arg))
     else if ast_type = Some (JStr ''Expr'') then
       path_call print path ''value''
     else if ast_type = Some (JStr ''Call'') then
       bindE (get n ''func'') (\<lambda>func.
       bindE (get func ''id'') (\<lambda>id.
       bindE (path_map print path ''args'') (\<lambda>args.
         Inr (Concat [Lit id, text_lit ''('', join (text_lit '', '') args, text_lit '')'']))))
     else if ast_type = Some (JStr ''Str'') then
       bindE (get n ''s'') (\<lambda>s. Inr (text_lit ([CHR 0x22] @ to_string s @ [CHR 0x22])))
     else if ast_type = Some (JStr ''Num'') then
       path_call print path ''n''
     else if ast_type = Some (JStr ''float'') \<or> ast_type = Some (JStr ''int'') then
       bindE (get n ''n'') (\<lambda>v. Inr (text_lit (to_string v)))
     else if ast_type = Some (JStr ''Name'') then
       bindE (get n ''id'') (\<lambda>id. Inr (Lit id))
     else if ast_type = Some (JStr ''NameConstant'') then
       bindE (get n ''value'') (\<lambda>v. Inr (text_lit (to_string v)))
     else if ast_type = Some (JStr ''For'') then
       bindE (path_call print path ''target'') (\<lambda>target.
       bindE (path_call print path ''iter'') (\<lambda>iter.
       bindE (path_map print path ''body'') (\<lambda>body.
       bindE (get n ''orelse'') (\<lambda>orelse.
       bindE (get orelse ''length'') (\<lambda>len.
       let parts = [text_lit ''for '', target, text_lit '' in '', iter, text_lit '':'',
                    Indent (Concat [Line, Concat body])] in
       bindE (if greater_zero len
              then bindE (path_map print path ''orelse'') (\<lambda>els.
                     Inr (parts @ [Line, text_lit ''else:'', Indent (Concat [Line, Concat els])]))
              else Inr parts) (\<lambda>parts.
         Inr (Concat parts)))))))
     else if ast_type = Some (JStr ''Tuple'') then
       bindE (needsParens path) (\<lambda>needsParens.
       bindE (path_map print path ''elts'') (\<lambda>es.
       let elts = join (text_lit '', '') es in
         if needsParens then Inr (Concat [text_lit ''('', elts, text_lit '')''])
         else Inr elts))
     else if ast_type = Some (JStr ''List'') then
       bindE (path_map print path ''elts'') (\<lambda>es.
         Inr (Concat [text_lit ''['', join (text_lit '', '') es, text_lit '']'']))
     else if ast_type = Some (JStr ''Assign'') then
       bindE (path_map print path ''targets'') (\<lambda>targets.
       bindE (path_call print path ''value'') (\<lambda>v.
         Inr (Concat [join (text_lit '', '') targets, text_lit '' = '', v])))
     else if ast_type = Some (JStr ''AugAssign'') then
       bindE (path_call print path ''target'') (\<lambda>target.
       bindE (path_call print path ''op'') (\<lambda>op.
       bindE (path_call print path ''value'') (\<lambda>v.
         Inr (Concat [target, text_lit '' '', op, text_lit ''= '', v]))))
     else if ast_type = Some (JStr ''Dict'') then
       bindE (path_map print path ''keys'') (\<lambda>keys.
       bindE (path_map print path ''values'') (\<lambda>vals.
       let pairs = map_index (\<lambda>k i. Concat [Softline, k, text_lit '': '', doc_at vals i]) keys in
         Inr (Concat [text_lit ''{'', Indent (join (text_lit '','') pairs), Softline, text_lit ''}''])))
     else if ast_type = Some (JStr ''ClassDef'') then
       bindE (get n ''bases'') (\<lambda>bs.
       bindE (get bs ''length'') (\<lambda>len.
       bindE (if greater_zero len
              then bindE (path_map print path ''bases'') (\<lambda>bases.
                     Inr [text_lit ''('', join (text_lit '','') bases, text_lit '')''])
              else Inr []) (\<lambda>bases.
       bindE (get n ''name'') (\<lambda>name.
       bindE (path_map print path ''body'') (\<lambda>body.
         Inr (Concat [
           text_lit ''class '',
           Lit name,
           Concat bases,
           text_lit '':'',
           Indent (Concat [Line, Concat body])]))))))
     else if ast_type = Some (JStr ''Attribute'') then
       bindE (path_call print path ''value'') (\<lambda>v.
       bindE (get n ''attr'') (\<lambda>attr.
         Inr (Concat [v, text_lit ''.'', Lit attr])))
     else if ast_type = Some (JStr ''Add'') then Inr (text_lit ''+'')
     else if ast_type = Some (JStr ''Sub'') then Inr (text_lit ''-'')
     else if ast_type = Some (JStr ''Mult'') then Inr (text_lit ''*'')
     else if ast_type = Some (JStr ''MatMult'') then Inr (text_lit ''@'')
     else if ast_type = Some (JStr ''Div'') then Inr (text_lit ''/'')
     else if ast_type = Some (JStr ''FloorDiv'') then Inr (text_lit ''//'')
     else if ast_type = Some (JStr ''Mod'') then Inr (text_lit ''%'')
     else if ast_type = Some (JStr ''Pow'') then Inr (text_lit ''**'')
     else if ast_type = Some (JStr ''LShift'') then Inr (text_lit ''<<'')
     else if ast_type = Some (JStr ''RShift'') then Inr (text_lit ''>>'')
     else if ast_type = Some (JStr ''BitAnd'') then Inr (text_lit ''&'')
     else if ast_type = Some (JStr ''BitXor'') then Inr (text_lit ''^'')
     else if ast_type = Some (JStr ''BitOr'') then Inr (text_lit ''|'')
     else if ast_type = Some (JStr ''Compare'') then
       bindE (path_map print path ''ops'') (\<lambda>ops.
       bindE (path_map print path ''comparators'') (\<lambda>comparators.
       let pairs = map_index (\<lambda>op i. Concat [text_lit '' '', op, text_lit '' '', doc_at comparators i]) ops in
       bindE (path_call print path ''left'') (\<lambda>left.
         Inr (Concat (left # pairs)))))
     else if ast_type = Some (JStr ''Lt'') then Inr (text_lit ''<'')
     else if ast_type = Some (JStr ''LtE'') then Inr (text_lit ''<='')
     else if ast_type = Some (JStr ''Gt'') then Inr (text_lit ''>'')
     else if ast_type = Some (JStr ''GtE'') then Inr (text_lit ''>='')
     else if ast_type = Some (JStr ''Eq'') then Inr (text_lit ''=='')
     else if ast_type = Some (JStr ''NotEq'') then Inr (text_lit ''!='')
     else Inl (UnsupportedNodeKind ast_type)))"

subsection \<open>The recursion through \<open>print\<close>\<close>

text \<open>
  \<open>genericPrint\<close> never calls itself: it recurses through the callback \<open>print\<close>, which
  the driver of the traversal supplies. The callback is only ever applied to paths below
  the current node; \<open>value_size\<close> measures how much of the tree is left.
\<close>

definition value_size :: "jsval \<Rightarrow> nat" where
  "value_size v = (case v of None \<Rightarrow> 0 | Some j \<Rightarrow> size j)"

lemma map_of_size: "map_of fs k = Some v \<Longrightarrow> size v < size (JObj fs)"
  by (induction fs) (auto split: if_splits)

lemma elem_size: "x \<in> set xs \<Longrightarrow> size x < size (JArr xs)"
  by (induction xs) auto

lemma mapE_agree: "(\<And>x. x \<in> set xs \<Longrightarrow> f x = g x) \<Longrightarrow> mapE f xs = mapE g xs"
  by (induction xs) auto

lemma value_size_field: "value_size (map_of fs k) < size (JObj fs)"
  by (cases "map_of fs k") (auto simp: value_size_def dest: map_of_size)

lemma value_size_index: "value_size (index v i) \<le> value_size v"
proof (cases v)
  case None
  then show ?thesis by (simp add: value_size_def)
next
  case (Some j)
  then show ?thesis
    by (cases j) (auto simp: value_size_def dest!: elem_size[OF nth_mem])
qed

lemma path_call_agree:
  assumes "getValue p = Some (JObj fs)"
      and "\<And>c. value_size (getValue c) < value_size (getValue p) \<Longrightarrow> f c = g c"
    shows "path_call f p k = path_call g p k"
  using assms value_size_field[of fs k] by (simp add: path_call_def bindE_def value_size_def)

lemma path_call_at_agree:
  assumes "getValue p = Some (JObj fs)"
      and "\<And>c. value_size (getValue c) < value_size (getValue p) \<Longrightarrow> f c = g c"
    shows "path_call_at f p k i = path_call_at g p k i"
proof -
  have "value_size (index (map_of fs k) i) < size (JObj fs)"
    using value_size_index[of "map_of fs k" i] value_size_field[of fs k] by simp
  then show ?thesis
    using assms by (simp add: path_call_at_def bindE_def value_size_def)
qed

lemma path_map_agree:
  assumes "getValue p = Some (JObj fs)"
      and "\<And>c. value_size (getValue c) < value_size (getValue p) \<Longrightarrow> f c = g c"
    shows "path_map f p k = path_map g p k"
proof -
  have "mapE (\<lambda>x. f (Path (Some x) (getValue p))) xs = mapE (\<lambda>x. g (Path (Some x) (getValue p))) xs"
    if "map_of fs k = Some (JArr xs)" for xs
  proof (rule mapE_agree)
    fix x assume "x \<in> set xs"
    then have "size x < size (JArr xs)" by (rule elem_size)
    also have "\<dots> < size (JObj fs)" using that by (rule map_of_size)
    finally show "f (Path (Some x) (getValue p)) = g (Path (Some x) (getValue p))"
      using assms by (simp add: value_size_def)
  qed
  then show ?thesis
    using assms(1) by (simp add: path_map_def bindE_def split: option.splits json.splits)
qed

lemma walk_agree:
  assumes "\<And>k i. path_call_at f p k i = path_call_at g p k i"
  shows "walk f p ak dk ms ca cd = walk g p ak dk ms ca cd"
  using assms
  by (induction f p ak dk ms ca cd rule: walk.induct) (simp_all add: bindE_def split: sum.splits)

lemma printArguments_agree:
  assumes "getValue p = Some (JObj fs)"
      and "\<And>c. value_size (getValue c) < value_size (getValue p) \<Longrightarrow> f c = g c"
    shows "printArguments f p ak dk = printArguments g p ak dk"
  unfolding printArguments_def Let_def
  by (simp add: walk_agree[of f p g, OF path_call_at_agree[OF assms]])

lemma genericPrint_agree_node:
  assumes "getValue p = Some (JObj fs)"
      and "\<And>c. value_size (getValue c) < value_size (getValue p) \<Longrightarrow> f c = g c"
    shows "genericPrint f p = genericPrint g p"
  unfolding genericPrint_def Let_def
  by (simp only: path_call_agree[of p fs f g, OF assms] path_map_agree[of p fs f g, OF assms]
      printArguments_agree[of p fs f g, OF assms])

text \<open>On a value that is not an object the callback is not called at all.\<close>

lemma genericPrint_no_call:
  assumes "\<And>fs. getValue p \<noteq> Some (JObj fs)"
  shows "genericPrint f p = genericPrint g p"
proof (cases "getValue p")
  case None
  then show ?thesis by (simp add: genericPrint_def Let_def)
next
  case (Some j)
  show ?thesis
  proof (cases j)
    case (JObj fs)
    with Some assms show ?thesis by simp
  qed (simp_all add: Some genericPrint_def Let_def bindE_def)
qed

lemma genericPrint_cong [fundef_cong]:
  assumes "p = q"
      and "\<And>c. value_size (getValue c) < value_size (getValue q) \<Longrightarrow> f c = g c"
    shows "genericPrint f p = genericPrint g q"
  using assms genericPrint_agree_node[of q _ f g] genericPrint_no_call[of q f g]
  by (cases "\<exists>fs. getValue q = Some (JObj fs)") auto

text \<open>
  Modelled from the spec: the \<open>print\<close> callback of the traversal driver (outside this
  file), "the callback to recurse": it prints the node the path points at with
  \<open>genericPrint\<close>, handing itself over as the callback. The recursion ends because the
  tree is finite.
\<close>

function printAst :: "path \<Rightarrow> doc result" where
  "printAst p = genericPrint printAst p"
  by pat_completeness auto
termination
  by (relation "measure (\<lambda>p. value_size (getValue p))") auto

declare printAst.simps [simp del]

text \<open>The symbols of the six comparison operators, as the cases \<open>Lt\<close> to \<open>NotEq\<close> of
  \<open>genericPrint\<close> return them.\<close>

definition comparison_symbols :: "(string \<times> string) list" where
  "comparison_symbols =
     [(''Lt'', ''<''), (''LtE'', ''<=''), (''Gt'', ''>''), (''GtE'', ''>=''),
      (''Eq'', ''==''), (''NotEq'', ''!='')]"

text \<open>
  The parameters \<open>as\<close> and the defaults \<open>ds\<close> of a parameter list in the order of the
  source text, the defaults belonging to the trailing parameters: first the parameters
  without a default, then each remaining parameter followed by its default.
\<close>

definition pairs_in_order :: "json list \<Rightarrow> json list \<Rightarrow> json list" where
  "pairs_in_order xs ys = concat (map (\<lambda>(a, d). [a, d]) (zip xs ys))"

definition source_order :: "json list \<Rightarrow> json list \<Rightarrow> json list" where
  "source_order as ds =
     take (length as - length ds) as @ pairs_in_order (drop (length as - length ds) as) ds"

section \<open>The printer over a store\<close>

text \<open>
  The embedding above takes the tree as a value, so it cannot say what printing does to
  the objects of the tree. This section embeds the same source a second time, with the
  objects and arrays of JavaScript as cells of a store: a value refers to an object or
  an array by its address, reading a field reads the store, the spread
  \<open>[...a, ...b]\<close> allocates a new array, and \<open>sort\<close> writes to the cell of the array it
  sorts. The properties relate the two embeddings, and say which cells a call leaves as
  they were.
\<close>

subsection \<open>Values in a store\<close>

text \<open>A JavaScript value: a primitive, or the address of an object or an array.
  \<open>None\<close> is \<open>undefined\<close>, as before.\<close>

datatype ref_json =
    RNull
  | RBool bool
  | RNum int
  | RStr string
  | RRef nat

type_synonym ref_val = "ref_json option"

text \<open>A store is the list of its cells; the address of a cell is its position. An
  array cell holds the elements, an object cell the fields in order.\<close>

datatype cell = ArrayCell "ref_json list" | ObjectCell "(string \<times> ref_json) list"

type_synonym store = "cell list"

text \<open>The errors of \<open>error\<close>, with the tag of the unsupported node as a value in the
  store.\<close>

datatype store_error = SUnsupportedNodeKind ref_val | STypeError

type_synonym 'a store_result = "store_error + 'a"

text \<open>A computation runs from a store and returns the store it leaves with a result or
  an error; \<open>None\<close> is a run that was cut off before it returned (see \<open>printS\<close>).\<close>

type_synonym 'a comp = "store \<Rightarrow> (store \<times> 'a store_result) option"

definition returnS :: "'a \<Rightarrow> 'a comp" where
  "returnS x = (\<lambda>s. Some (s, Inr x))"

definition throwS :: "store_error \<Rightarrow> 'a comp" where
  "throwS e = (\<lambda>s. Some (s, Inl e))"

definition readS :: "(store \<Rightarrow> 'a store_result) \<Rightarrow> 'a comp" where
  "readS f = (\<lambda>s. Some (s, f s))"

definition bindS :: "'a comp \<Rightarrow> ('a \<Rightarrow> 'b comp) \<Rightarrow> 'b comp" where
  "bindS m f = (\<lambda>s. case m s of
                      None \<Rightarrow> None
                    | Some (s', Inl e) \<Rightarrow> Some (s', Inl e)
                    | Some (s', Inr x) \<Rightarrow> f x s')"

fun mapS :: "('a \<Rightarrow> 'b comp) \<Rightarrow> 'a list \<Rightarrow> 'b list comp" where
  "mapS f [] = returnS []"
| "mapS f (x # xs) = bindS (f x) (\<lambda>y. bindS (mapS f xs) (\<lambda>ys. returnS (y # ys)))"

subsection \<open>The JavaScript operations, reading the store\<close>

text \<open>Each operation of the first embedding, on values in a store. An address that
  holds no cell cannot arise from a JavaScript reference; reading through it is refused as
  a \<open>TypeError\<close>.\<close>

definition cell_at :: "store \<Rightarrow> nat \<Rightarrow> cell option" where
  "cell_at s a = (if a < length s then Some (s ! a) else None)"

fun truthy_ref :: "ref_val \<Rightarrow> bool" where
  "truthy_ref None = False"
| "truthy_ref (Some RNull) = False"
| "truthy_ref (Some (RBool b)) = b"
| "truthy_ref (Some (RNum k)) = (k \<noteq> 0)"
| "truthy_ref (Some (RStr s)) = (s \<noteq> [])"
| "truthy_ref (Some (RRef a)) = True"

fun is_string_ref :: "ref_val \<Rightarrow> bool" where
  "is_string_ref (Some (RStr s)) = True"
| "is_string_ref v = False"

fun get_ref :: "store \<Rightarrow> ref_val \<Rightarrow> string \<Rightarrow> ref_val store_result" where
  "get_ref s None k = Inl STypeError"
| "get_ref s (Some RNull) k = Inl STypeError"
| "get_ref s (Some (RRef a)) k =
     (case cell_at s a of
        Some (ObjectCell fs) \<Rightarrow> Inr (map_of fs k)
      | Some (ArrayCell xs) \<Rightarrow> Inr (if k = ''length'' then Some (RNum (int (length xs))) else None)
      | None \<Rightarrow> Inl STypeError)"
| "get_ref s (Some (RStr t)) k = Inr (if k = ''length'' then Some (RNum (int (length t))) else None)"
| "get_ref s (Some (RBool b)) k = Inr None"
| "get_ref s (Some (RNum n)) k = Inr None"

fun index_ref :: "store \<Rightarrow> ref_val \<Rightarrow> nat \<Rightarrow> ref_val" where
  "index_ref s (Some (RRef a)) i =
     (case cell_at s a of
        Some (ArrayCell xs) \<Rightarrow> (if i < length xs then Some (xs ! i) else None)
      | _ \<Rightarrow> None)"
| "index_ref s (Some (RStr t)) i = (if i < length t then Some (RStr [t ! i]) else None)"
| "index_ref s v i = None"

fun spread_ref :: "store \<Rightarrow> ref_val \<Rightarrow> ref_json list store_result" where
  "spread_ref s (Some (RRef a)) =
     (case cell_at s a of Some (ArrayCell xs) \<Rightarrow> Inr xs | _ \<Rightarrow> Inl STypeError)"
| "spread_ref s (Some (RStr t)) = Inr (map (\<lambda>c. RStr [c]) t)"
| "spread_ref s v = Inl STypeError"

text \<open>The string of a value. The string of an array is that of its elements, which is
  as deep as the array: the first argument bounds the depth.\<close>

fun to_string_ref :: "nat \<Rightarrow> store \<Rightarrow> ref_json \<Rightarrow> string" where
  "to_string_ref k s RNull = ''null''"
| "to_string_ref k s (RBool b) = (if b then ''true'' else ''false'')"
| "to_string_ref k s (RNum i) = show_int i"
| "to_string_ref k s (RStr t) = t"
| "to_string_ref 0 s (RRef a) = []"
| "to_string_ref (Suc k) s (RRef a) =
     (case cell_at s a of
        Some (ArrayCell xs) \<Rightarrow>
          join_commas (map (\<lambda>x. if x = RNull then [] else to_string_ref k s x) xs)
      | Some (ObjectCell fs) \<Rightarrow> ''[object Object]''
      | None \<Rightarrow> [])"

definition to_string_val :: "nat \<Rightarrow> store \<Rightarrow> ref_val \<Rightarrow> string" where
  "to_string_val k s v = (case v of None \<Rightarrow> ''undefined'' | Some x \<Rightarrow> to_string_ref k s x)"

fun greater_zero_ref :: "ref_val \<Rightarrow> bool" where
  "greater_zero_ref (Some (RNum k)) = (0 < k)"
| "greater_zero_ref (Some (RBool b)) = b"
| "greater_zero_ref v = False"

fun loosely_differs_ref :: "nat \<Rightarrow> store \<Rightarrow> ref_val \<Rightarrow> string \<Rightarrow> bool" where
  "loosely_differs_ref k s (Some (RStr t)) u = (t \<noteq> u)"
| "loosely_differs_ref k s (Some (RRef a)) u =
     (case cell_at s a of
        Some (ArrayCell xs) \<Rightarrow> to_string_ref k s (RRef a) \<noteq> u
      | _ \<Rightarrow> True)"
| "loosely_differs_ref k s v u = True"

fun col_offset_ref :: "store \<Rightarrow> ref_json \<Rightarrow> int" where
  "col_offset_ref s (RRef a) =
     (case cell_at s a of
        Some (ObjectCell fs) \<Rightarrow> (case map_of fs ''col_offset'' of Some (RNum k) \<Rightarrow> k | _ \<Rightarrow> 0)
      | _ \<Rightarrow> 0)"
| "col_offset_ref s v = 0"

text \<open>The array literal \<open>[...a, ...b]\<close> makes a new array: a new cell at the end of the
  store, whose address is the value of the literal.\<close>

definition allocS :: "ref_json list \<Rightarrow> nat comp" where
  "allocS xs = (\<lambda>s. Some (s @ [ArrayCell xs], Inr (length s)))"

text \<open>\<open>merge.sort((a, b) => a.col_offset - b.col_offset)\<close> sorts the array in place: it
  writes the sorted elements to the cell of the array it is called on, whichever cell
  that is. As in \<open>sort_by_col_offset\<close>, the comparator runs when there are two elements
  or more and throws a \<open>TypeError\<close> on \<open>null\<close>.\<close>

definition sort_by_col_offsetS :: "nat \<Rightarrow> unit comp" where
  "sort_by_col_offsetS a =
     (\<lambda>s. case cell_at s a of
             Some (ArrayCell xs) \<Rightarrow>
               if 2 \<le> length xs \<and> RNull \<in> set xs then Some (s, Inl STypeError)
               else Some (s[a := ArrayCell (sort_key (col_offset_ref s) xs)], Inr ())
           | _ \<Rightarrow> Some (s, Inl STypeError))"

text \<open>The elements of the array at an address.\<close>

definition read_arrayS :: "nat \<Rightarrow> ref_json list comp" where
  "read_arrayS a =
     readS (\<lambda>s. case cell_at s a of Some (ArrayCell xs) \<Rightarrow> Inr xs | _ \<Rightarrow> Inl STypeError)"

subsection \<open>Document fragments over the store\<close>

text \<open>
  Modelled from the spec: the fragments of the builders module (outside this file), as in
  \<open>doc\<close>, with the values of the store in the text leaves. The builders make new
  fragments and write to nothing they are given.
\<close>

datatype ref_doc =
    RLit ref_val
  | RConcat "ref_doc list"
  | RGroup ref_doc
  | RIndent ref_doc
  | RLine
  | RSoftline
  | RHardline

abbreviation text_ref :: "string \<Rightarrow> ref_doc" where
  "text_ref t \<equiv> RLit (Some (RStr t))"

fun join_parts_ref :: "ref_doc \<Rightarrow> ref_doc list \<Rightarrow> ref_doc list" where
  "join_parts_ref sep [] = []"
| "join_parts_ref sep [d] = [d]"
| "join_parts_ref sep (d # e # ds) = d # sep # join_parts_ref sep (e # ds)"

definition join_ref :: "ref_doc \<Rightarrow> ref_doc list \<Rightarrow> ref_doc" where
  "join_ref sep arr = RConcat (join_parts_ref sep arr)"

definition ref_doc_at :: "ref_doc list \<Rightarrow> nat \<Rightarrow> ref_doc" where
  "ref_doc_at ds i = (if i < length ds then ds ! i else RLit None)"

definition map_index_ref :: "(ref_doc \<Rightarrow> nat \<Rightarrow> ref_doc) \<Rightarrow> ref_doc list \<Rightarrow> ref_doc list" where
  "map_index_ref f ds = map (\<lambda>(d, i). f d i) (zip ds [0 ..< length ds])"

subsection \<open>The path cursor over the store\<close>

text \<open>
  Modelled from the spec: the path cursor (\<open>FastPath\<close>, outside this file) and its
  methods \<open>path.call(print, k)\<close>, \<open>path.call(print, k, i)\<close> and \<open>path.map(print, k)\<close>, as
  in \<open>path\<close>, \<open>path_call\<close>, \<open>path_call_at\<close> and \<open>path_map\<close>. They read the field and the
  elements from the store and call \<open>print\<close> on each; the store a call leaves is the
  store the next call starts from.
\<close>

datatype ref_path = RPath (getValueS: ref_val) (getParentNodeS: ref_val)

definition path_callS :: "(ref_path \<Rightarrow> ref_doc comp) \<Rightarrow> ref_path \<Rightarrow> string \<Rightarrow> ref_doc comp" where
  "path_callS print path k =
     bindS (readS (\<lambda>s. get_ref s (getValueS path) k)) (\<lambda>v.
       print (RPath v (getValueS path)))"

definition path_call_atS :: "(ref_path \<Rightarrow> ref_doc comp) \<Rightarrow> ref_path \<Rightarrow> string \<Rightarrow> nat \<Rightarrow> ref_doc comp" where
  "path_call_atS print path k i =
     bindS (readS (\<lambda>s. get_ref s (getValueS path) k)) (\<lambda>v.
     bindS (readS (\<lambda>s. Inr (index_ref s v i))) (\<lambda>e.
       print (RPath e (getValueS path))))"

definition path_mapS :: "(ref_path \<Rightarrow> ref_doc comp) \<Rightarrow> ref_path \<Rightarrow> string \<Rightarrow> ref_doc list comp" where
  "path_mapS print path k =
     bindS (readS (\<lambda>s. get_ref s (getValueS path) k)) (\<lambda>v.
       case v of
         Some (RRef a) \<Rightarrow>
           bindS (read_arrayS a) (\<lambda>xs.
             mapS (\<lambda>x. print (RPath (Some x) (getValueS path))) xs)
       | _ \<Rightarrow> throwS STypeError)"

subsection \<open>The argument merger over the store\<close>

text \<open>
  \<open>printArguments\<close>, statement by statement: the two fields are read and spread into a
  new array \<open>merge\<close>, \<open>merge\<close> is sorted in place, and the loop walks over it. The array is
  reachable only through the local variable \<open>merge\<close>, so the loop's reads of \<open>merge[i + 1]\<close>
  see the elements the sort left: the model reads them once, when the sort has returned.
  The bound on the depth of a string is that of \<open>to_string_ref\<close>.
\<close>

definition next_is_defaultS :: "nat \<Rightarrow> ref_val \<Rightarrow> bool comp" where
  "next_is_defaultS fuel next =
     (if truthy_ref next
      then bindS (readS (\<lambda>st. get_ref st next ''ast_type'')) (\<lambda>t.
             readS (\<lambda>st. Inr (loosely_differs_ref fuel st t ''arg'')))
      else returnS False)"

fun walkS :: "nat \<Rightarrow> (ref_path \<Rightarrow> ref_doc comp) \<Rightarrow> ref_path \<Rightarrow> string \<Rightarrow> string \<Rightarrow> ref_json list \<Rightarrow> nat \<Rightarrow> nat \<Rightarrow> ref_doc list comp" where
  "walkS fuel print path argsKey defaultsKey [] currentArgument currentDefault = returnS []"
| "walkS fuel print path argsKey defaultsKey [m] currentArgument currentDefault =
     bindS (path_call_atS print path argsKey currentArgument) (\<lambda>a.
     bindS (next_is_defaultS fuel None) (\<lambda>is_default.
       returnS [RConcat [a]]))"
| "walkS fuel print path argsKey defaultsKey (m # next # rest) currentArgument currentDefault =
     bindS (path_call_atS print path argsKey currentArgument) (\<lambda>a.
     bindS (next_is_defaultS fuel (Some next)) (\<lambda>is_default.
       if is_default then
         bindS (path_call_atS print path defaultsKey currentDefault) (\<lambda>d.
         bindS (walkS fuel print path argsKey defaultsKey rest (currentArgument + 1) (currentDefault + 1)) (\<lambda>parts.
           returnS (RConcat [a, text_ref ''='', d] # parts)))
       else
         bindS (walkS fuel print path argsKey defaultsKey (next # rest) (currentArgument + 1) currentDefault) (\<lambda>parts.
           returnS (RConcat [a] # parts))))"

definition printArgumentsS :: "nat \<Rightarrow> (ref_path \<Rightarrow> ref_doc comp) \<Rightarrow> ref_path \<Rightarrow> string \<Rightarrow> string \<Rightarrow> ref_doc list comp" where
  "printArgumentsS fuel print path argsKey defaultsKey =
     (let n = getValueS path in
      bindS (readS (\<lambda>st. get_ref st n argsKey)) (\<lambda>args.
      bindS (readS (\<lambda>st. spread_ref st args)) (\<lambda>as.
      bindS (readS (\<lambda>st. get_ref st n defaultsKey)) (\<lambda>defaults.
      bindS (readS (\<lambda>st. spread_ref st defaults)) (\<lambda>ds.
      bindS (allocS (as @ ds)) (\<lambda>merge.
      bindS (sort_by_col_offsetS merge) (\<lambda>sorted.
      bindS (read_arrayS merge) (\<lambda>merged.
        walkS fuel print path argsKey defaultsKey merged 0 0))))))))"

subsection \<open>The node printer over the store\<close>

text \<open>\<open>genericPrint\<close>, case by case as in the first embedding. Every case reads the
  node through the store. The arrays that a case builds (\<open>parts\<close>, pushed to and
  concatenated) are local to the call and hold fragments, not nodes: they are lists, as
  in the first embedding.\<close>

definition needsParensS :: "ref_path \<Rightarrow> bool comp" where
  "needsParensS path =
     bindS (readS (\<lambda>st. get_ref st (getParentNodeS path) ''ast_type'')) (\<lambda>parent_type.
       returnS (parent_type = Some (RStr ''List'') \<or> parent_type = Some (RStr ''Tuple'')))"

definition genericPrintS :: "nat \<Rightarrow> (ref_path \<Rightarrow> ref_doc comp) \<Rightarrow> ref_path \<Rightarrow> ref_doc comp" where
  "genericPrintS fuel print path =
  (let n = getValueS path in
   if \<not> truthy_ref n then returnS (text_ref [])
   else if is_string_ref n then returnS (RLit n)
   else bindS (readS (\<lambda>st. get_ref st n ''ast_type'')) (\<lambda>ast_type.
     if ast_type = Some (RStr ''Module'') then
       bindS (path_mapS print path ''body'') (\<lambda>body.
         returnS (RConcat [join_ref (RConcat [RHardline, RHardline]) body, RHardline]))
     else if ast_type = Some (RStr ''FunctionDef'') then
       bindS (path_callS print path ''name'') (\<lambda>name.
       bindS (path_callS print path ''args'') (\<lambda>args.
       bindS (path_mapS print path ''body'') (\<lambda>body.
         returnS (RConcat [
           text_ref ''def '',
           name,
           RGroup (RConcat [text_ref ''('', RIndent (RConcat [RSoftline, args]), RSoftline, text_ref '')'']),
           text_ref '':'',
           RIndent (RConcat [RLine, RConcat body])]))))
     else if ast_type = Some (RStr ''arguments'') then
       bindS (printArgumentsS fuel print path ''args'' ''defaults'') (\<lambda>parts.
       bindS (readS (\<lambda>st. get_ref st n ''vararg'')) (\<lambda>vararg.
       bindS (if truthy_ref vararg
              then bindS (path_callS print path ''vararg'') (\<lambda>v. returnS (parts @ [RConcat [text_ref ''*'', v]]))
              else returnS parts) (\<lambda>parts.
       bindS (readS (\<lambda>st. get_ref st n ''kwonlyargs'')) (\<lambda>kwonlyargs.
       bindS (readS (\<lambda>st. get_ref st kwonlyargs ''length'')) (\<lambda>len.
       bindS (if greater_zero_ref len
              then bindS (printArgumentsS fuel print path ''kwonlyargs'' ''kw_defaults'') (\<lambda>kw.
                     returnS ((parts @ [text_ref ''*'']) @ kw))
              else returnS parts) (\<lambda>parts.
       bindS (readS (\<lambda>st. get_ref st n ''kwarg'')) (\<lambda>kwarg.
       bindS (if truthy_ref kwarg
              then bindS (path_callS print path ''kwarg'') (\<lambda>k. returnS (parts @ [RConcat [text_ref ''**'', k]]))
              else returnS parts) (\<lambda>parts.
         returnS (join_ref (RConcat [text_ref '', '', RSoftline]) parts)))))))))
     else if ast_type = Some (RStr ''arg'') then
       bindS (readS (\<lambda>st. get_ref st n ''arg'')) (\<lambda>arg. returnS (RLit arg))
     else if ast_type = Some (RStr ''Expr'') then
       path_callS print path ''value''
     else if ast_type = Some (RStr ''Call'') then
       bindS (readS (\<lambda>st. get_ref st n ''func'')) (\<lambda>func.
       bindS (readS (\<lambda>st. get_ref st func ''id'')) (\<lambda>id.
       bindS (path_mapS print path ''args'') (\<lambda>args.
         returnS (RConcat [RLit id, text_ref ''('', join_ref (text_ref '', '') args, text_ref '')'']))))
     else if ast_type = Some (RStr ''Str'') then
       bindS (readS (\<lambda>st. get_ref st n ''s'')) (\<lambda>s.
         readS (\<lambda>st. Inr (text_ref ([CHR 0x22] @ to_string_val fuel st s @ [CHR 0x22]))))
     else if ast_type = Some (RStr ''Num'') then
       path_callS print path ''n''
     else if ast_type = Some (RStr ''float'') \<or> ast_type = Some (RStr ''int'') then
       bindS (readS (\<lambda>st. get_ref st n ''n'')) (\<lambda>v.
         readS (\<lambda>st. Inr (text_ref (to_string_val fuel st v))))
     else if ast_type = Some (RStr ''Name'') then
       bindS (readS (\<lambda>st. get_ref st n ''id'')) (\<lambda>id. returnS (RLit id))
     else if ast_type = Some (RStr ''NameConstant'') then
       bindS (readS (\<lambda>st. get_ref st n ''value'')) (\<lambda>v.
         readS (\<lambda>st. Inr (text_ref (to_string_val fuel st v))))
     else if ast_type = Some (RStr ''For'') then
       bindS (path_callS print path ''target'') (\<lambda>target.
       bindS (path_callS print path ''iter'') (\<lambda>iter.
       bindS (path_mapS print path ''body'') (\<lambda>body.
       bindS (readS (\<lambda>st. get_ref st n ''orelse'')) (\<lambda>orelse.
       bindS (readS (\<lambda>st. get_ref st orelse ''length'')) (\<lambda>len.
       let parts = [text_ref ''for '', target, text_ref '' in '', iter, text_ref '':'',
                    RIndent (RConcat [RLine, RConcat body])] in
       bindS (if greater_zero_ref len
              then bindS (path_mapS print path ''orelse'') (\<lambda>els.
                     returnS (parts @ [RLine, text_ref ''else:'', RIndent (RConcat [RLine, RConcat els])]))
              else returnS parts) (\<lambda>parts.
         returnS (RConcat parts)))))))
     else if ast_type = Some (RStr ''Tuple'') then
       bindS (needsParensS path) (\<lambda>needsParens.
       bindS (path_mapS print path ''elts'') (\<lambda>es.
       let elts = join_ref (text_ref '', '') es in
         if needsParens then returnS (RConcat [text_ref ''('', elts, text_ref '')''])
         else returnS elts))
     else if ast_type = Some (RStr ''List'') then
       bindS (path_mapS print path ''elts'') (\<lambda>es.
         returnS (RConcat [text_ref ''['', join_ref (text_ref '', '') es, text_ref '']'']))
     else if ast_type = Some (RStr ''Assign'') then
       bindS (path_mapS print path ''targets'') (\<lambda>targets.
       bindS (path_callS print path ''value'') (\<lambda>v.
         returnS (RConcat [join_ref (text_ref '', '') targets, text_ref '' = '', v])))
     else if ast_type = Some (RStr ''AugAssign'') then
       bindS (path_callS print path ''target'') (\<lambda>target.
       bindS (path_callS print path ''op'') (\<lambda>op.
       bindS (path_callS print path ''value'') (\<lambda>v.
         returnS (RConcat [target, text_ref '' '', op, text_ref ''= '', v]))))
     else if ast_type = Some (RStr ''Dict'') then
       bindS (path_mapS print path ''keys'') (\<lambda>keys.
       bindS (path_mapS print path ''values'') (\<lambda>vals.
       let pairs = map_index_ref (\<lambda>k i. RConcat [RSoftline, k, text_ref '': '', ref_doc_at vals i]) keys in
         returnS (RConcat [text_ref ''{'', RIndent (join_ref (text_ref '','') pairs), RSoftline, text_ref ''}''])))
     else if ast_type = Some (RStr ''ClassDef'') then
       bindS (readS (\<lambda>st. get_ref st n ''bases'')) (\<lambda>bs.
       bindS (readS (\<lambda>st. get_ref st bs ''length'')) (\<lambda>len.
       bindS (if greater_zero_ref len
              then bindS (path_mapS print path ''bases'') (\<lambda>bases.
                     returnS [text_ref ''('', join_ref (text_ref '','') bases, text_ref '')''])
              else returnS []) (\<lambda>bases.
       bindS (readS (\<lambda>st. get_ref st n ''name'')) (\<lambda>name.
       bindS (path_mapS print path ''body'') (\<lambda>body.
         returnS (RConcat [
           text_ref ''class '',
           RLit name,
           RConcat bases,
           text_ref '':'',
           RIndent (RConcat [RLine, RConcat body])]))))))
     else if ast_type = Some (RStr ''Attribute'') then
       bindS (path_callS print path ''value'') (\<lambda>v.
       bindS (readS (\<lambda>st. get_ref st n ''attr'')) (\<lambda>attr.
         returnS (RConcat [v, text_ref ''.'', RLit attr])))
     else if ast_type = Some (RStr ''Add'') then returnS (text_ref ''+'')
     else if ast_type = Some (RStr ''Sub'') then returnS (text_ref ''-'')
     else if ast_type = Some (RStr ''Mult'') then returnS (text_ref ''*'')
     else if ast_type = Some (RStr ''MatMult'') then returnS (text_ref ''@'')
     else if ast_type = Some (RStr ''Div'') then returnS (text_ref ''/'')
     else if ast_type = Some (RStr ''FloorDiv'') then returnS (text_ref ''//'')
     else if ast_type = Some (RStr ''Mod'') then returnS (text_ref ''%'')
     else if ast_type = Some (RStr ''Pow'') then returnS (text_ref ''**'')
     else if ast_type = Some (RStr ''LShift'') then returnS (text_ref ''<<'')
     else if ast_type = Some (RStr ''RShift'') then returnS (text_ref ''>>'')
     else if ast_type = Some (RStr ''BitAnd'') then returnS (text_ref ''&'')
     else if ast_type = Some (RStr ''BitXor'') then returnS (text_ref ''^'')
     else if ast_type = Some (RStr ''BitOr'') then returnS (text_ref ''|'')
     else if ast_type = Some (RStr ''Compare'') then
       bindS (path_mapS print path ''ops'') (\<lambda>ops.
       bindS (path_mapS print path ''comparators'') (\<lambda>comparators.
       let pairs = map_index_ref (\<lambda>op i. RConcat [text_ref '' '', op, text_ref '' '', ref_doc_at comparators i]) ops in
       bindS (path_callS print path ''left'') (\<lambda>left.
         returnS (RConcat (left # pairs)))))
     else if ast_type = Some (RStr ''Lt'') then returnS (text_ref ''<'')
     else if ast_type = Some (RStr ''LtE'') then returnS (text_ref ''<='')
     else if ast_type = Some (RStr ''Gt'') then returnS (text_ref ''>'')
     else if ast_type = Some (RStr ''GtE'') then returnS (text_ref ''>='')
     else if ast_type = Some (RStr ''Eq'') then returnS (text_ref ''=='')
     else if ast_type = Some (RStr ''NotEq'') then returnS (text_ref ''!='')
     else throwS (SUnsupportedNodeKind ast_type)))"


text \<open>
  Modelled from the spec: the \<open>print\<close> callback of the traversal driver (outside this
  file), as in \<open>printAst\<close>. A store can hold an object that is its own descendant, on which
  the traversal does not end, so the recursion is bounded: the first argument is the
  number of nested calls allowed, and a run that needs more returns \<open>None\<close>.
\<close>

primrec printS :: "nat \<Rightarrow> ref_path \<Rightarrow> ref_doc comp" where
  "printS 0 = (\<lambda>path st. None)"
| "printS (Suc fuel) = genericPrintS fuel (printS fuel)"

subsection \<open>Trees in the store\<close>

text \<open>A store extends another when it has the same cells at the same addresses, and
  perhaps more after them: nothing that was there has been written to.\<close>

definition extends :: "store \<Rightarrow> store \<Rightarrow> bool" where
  "extends s s' = (\<exists>e. s' = s @ e)"

text \<open>An address represents a tree when its cell holds the fields, or the elements,
  of the tree, each represented in turn. The parser's output is such a tree.\<close>

inductive rep :: "store \<Rightarrow> ref_json \<Rightarrow> json \<Rightarrow> bool" for s :: store where
  rep_null: "rep s RNull JNull"
| rep_bool: "rep s (RBool b) (JBool b)"
| rep_num: "rep s (RNum k) (JNum k)"
| rep_str: "rep s (RStr t) (JStr t)"
| rep_array: "cell_at s a = Some (ArrayCell xs) \<Longrightarrow> list_all2 (rep s) xs js \<Longrightarrow> rep s (RRef a) (JArr js)"
| rep_object: "cell_at s a = Some (ObjectCell fs) \<Longrightarrow>
     list_all2 (\<lambda>f g. fst f = fst g \<and> rep s (snd f) (snd g)) fs gs \<Longrightarrow> rep s (RRef a) (JObj gs)"

definition rep_val :: "store \<Rightarrow> ref_val \<Rightarrow> jsval \<Rightarrow> bool" where
  "rep_val s = rel_option (rep s)"

fun error_rep :: "store \<Rightarrow> store_error \<Rightarrow> error \<Rightarrow> bool" where
  "error_rep s (SUnsupportedNodeKind v) (UnsupportedNodeKind j) = rep_val s v j"
| "error_rep s STypeError TypeError = True"
| "error_rep s e e' = False"

text \<open>A fragment over the store represents a fragment of the first embedding when the
  two have the same shape and the values in their text leaves correspond.\<close>

inductive doc_rep :: "store \<Rightarrow> ref_doc \<Rightarrow> doc \<Rightarrow> bool" for s :: store where
  doc_lit: "rep_val s v j \<Longrightarrow> doc_rep s (RLit v) (Lit j)"
| doc_concat: "list_all2 (doc_rep s) ds es \<Longrightarrow> doc_rep s (RConcat ds) (Concat es)"
| doc_group: "doc_rep s d e \<Longrightarrow> doc_rep s (RGroup d) (Group e)"
| doc_indent: "doc_rep s d e \<Longrightarrow> doc_rep s (RIndent d) (Indent e)"
| doc_line: "doc_rep s RLine Line"
| doc_softline: "doc_rep s RSoftline Softline"
| doc_hardline: "doc_rep s RHardline Hardline"

definition path_rep :: "store \<Rightarrow> ref_path \<Rightarrow> path \<Rightarrow> bool" where
  "path_rep s p q = (rep_val s (getValueS p) (getValue q) \<and> rep_val s (getParentNodeS p) (getParentNode q))"

text \<open>A computation follows a result of the first embedding from \<open>s0\<close> when, started in
  any store that extends \<open>s0\<close>, it returns, leaves a store that extends the one it started
  in, and returns what represents that result.\<close>

definition sim :: "store \<Rightarrow> ('a \<Rightarrow> 'b \<Rightarrow> bool) \<Rightarrow> 'a comp \<Rightarrow> 'b result \<Rightarrow> bool" where
  "sim s0 R M m = (\<forall>s. extends s0 s \<longrightarrow>
      (\<exists>s' r. M s = Some (s', r) \<and> extends s s' \<and> rel_sum (error_rep s0) R r m))"

text \<open>The three statements of \<open>printArguments\<close> on the merged array: allocate, sort,
  read.\<close>

definition merge_sortedS :: "ref_json list \<Rightarrow> ref_json list comp" where
  "merge_sortedS xs = bindS (allocS xs) (\<lambda>a. bindS (sort_by_col_offsetS a) (\<lambda>u. read_arrayS a))"

text \<open>What the printer's tests see of a represented value, and a bound on its size.\<close>

definition val_rel :: "store \<Rightarrow> nat \<Rightarrow> ref_val \<Rightarrow> jsval \<Rightarrow> bool" where
  "val_rel s0 b v j \<longleftrightarrow>
     rep_val s0 v j \<and> value_size j \<le> b \<and> truthy_ref v = truthy j \<and>
     is_string_ref v = is_string j \<and> greater_zero_ref v = greater_zero j \<and>
     (\<forall>t. (v = Some (RStr t)) = (j = Some (JStr t)))"

text \<open>A result over the store that represents a result of the first embedding.\<close>

definition result_rep :: "store \<Rightarrow> ref_doc store_result \<Rightarrow> doc result \<Rightarrow> bool" where
  "result_rep s = rel_sum (error_rep s) (doc_rep s)"

section \<open>Example trees\<close>

text \<open>Nodes as the parser writes them, for the concrete cases below. Column offsets
  matter only in a parameter list, where they are those of the source text named with
  the tree.\<close>

definition name_node :: "string \<Rightarrow> int \<Rightarrow> json" where
  "name_node x c = JObj [(''ast_type'', JStr ''Name''), (''id'', JStr x), (''col_offset'', JNum c)]"

definition num_node :: "int \<Rightarrow> int \<Rightarrow> json" where
  "num_node k c =
     JObj [(''ast_type'', JStr ''Num''),
           (''n'', JObj [(''ast_type'', JStr ''int''), (''n'', JNum k)]),
           (''col_offset'', JNum c)]"

definition arg_node :: "string \<Rightarrow> int \<Rightarrow> json" where
  "arg_node x c =
     JObj [(''ast_type'', JStr ''arg''), (''arg'', JStr x), (''annotation'', JNull),
           (''col_offset'', JNum c)]"

text \<open>\<open>x += 1\<close>\<close>

definition aug_x_1 :: json where
  "aug_x_1 =
     JObj [(''ast_type'', JStr ''AugAssign''),
           (''target'', name_node ''x'' 0),
           (''op'', JObj [(''ast_type'', JStr ''Add'')]),
           (''value'', num_node 1 5),
           (''col_offset'', JNum 0)]"

text \<open>The tuple \<open>1, 2\<close>, the list \<open>[(1, 2)]\<close>, the tuple \<open>((1, 2),)\<close> and the
  assignment \<open>t = 1, 2\<close> that hold it.\<close>

definition tuple_1_2 :: json where
  "tuple_1_2 =
     JObj [(''ast_type'', JStr ''Tuple''), (''elts'', JArr [num_node 1 5, num_node 2 8]),
           (''col_offset'', JNum 5)]"

definition list_of_tuple :: json where
  "list_of_tuple =
     JObj [(''ast_type'', JStr ''List''), (''elts'', JArr [tuple_1_2]), (''col_offset'', JNum 4)]"

definition tuple_of_tuple :: json where
  "tuple_of_tuple =
     JObj [(''ast_type'', JStr ''Tuple''), (''elts'', JArr [tuple_1_2]), (''col_offset'', JNum 4)]"

definition assign_tuple :: json where
  "assign_tuple =
     JObj [(''ast_type'', JStr ''Assign''), (''targets'', JArr [name_node ''t'' 0]),
           (''value'', tuple_1_2), (''col_offset'', JNum 0)]"

text \<open>\<open>a < b <= c\<close>\<close>

definition compare_chain :: json where
  "compare_chain =
     JObj [(''ast_type'', JStr ''Compare''),
           (''left'', name_node ''a'' 0),
           (''ops'', JArr [JObj [(''ast_type'', JStr ''Lt'')], JObj [(''ast_type'', JStr ''LtE'')]]),
           (''comparators'', JArr [name_node ''b'' 4, name_node ''c'' 9]),
           (''col_offset'', JNum 0)]"

text \<open>\<open>{a: 1, b: 2}\<close>\<close>

definition dict_a_b :: json where
  "dict_a_b =
     JObj [(''ast_type'', JStr ''Dict''),
           (''keys'', JArr [name_node ''a'' 1, name_node ''b'' 7]),
           (''values'', JArr [num_node 1 4, num_node 2 10]),
           (''col_offset'', JNum 0)]"

text \<open>\<open>obj.method(1)\<close>: the callee is an attribute access, not a name.\<close>

definition attribute_callee :: json where
  "attribute_callee =
     JObj [(''ast_type'', JStr ''Attribute''), (''value'', name_node ''obj'' 0),
           (''attr'', JStr ''method''), (''col_offset'', JNum 0)]"

definition call_method :: json where
  "call_method =
     JObj [(''ast_type'', JStr ''Call''), (''func'', attribute_callee),
           (''args'', JArr [num_node 1 11]), (''keywords'', JArr []),
           (''col_offset'', JNum 0)]"

text \<open>An \<open>arguments\<close> node with its six fields, as Python's \<open>ast\<close> module has them.\<close>

definition arguments_node ::
  "json list \<Rightarrow> json \<Rightarrow> json list \<Rightarrow> json list \<Rightarrow> json \<Rightarrow> json list \<Rightarrow> json" where
  "arguments_node args vararg kwonlyargs kw_defaults kwarg defaults =
     JObj [(''ast_type'', JStr ''arguments''), (''args'', JArr args), (''vararg'', vararg),
           (''kwonlyargs'', JArr kwonlyargs), (''kw_defaults'', JArr kw_defaults),
           (''kwarg'', kwarg), (''defaults'', JArr defaults)]"

text \<open>The parameters of \<open>def f(a, b=1, c=2)\<close>.\<close>

definition arguments_one_line :: json where
  "arguments_one_line =
     arguments_node [arg_node ''a'' 6, arg_node ''b'' 9, arg_node ''c'' 14] JNull [] [] JNull
       [num_node 1 11, num_node 2 16]"

text \<open>The parameters of a definition whose parameter list is broken over lines, \<open>a\<close> in
  column 8 of the second line, \<open>b=1\<close> from column 4 of the third:
  \<^verbatim>\<open>
  def f(
          a,
      b=1):
  \<close>\<close>

definition arguments_split_lines :: json where
  "arguments_split_lines =
     arguments_node [arg_node ''a'' 8, arg_node ''b'' 4] JNull [] [] JNull [num_node 1 6]"

text \<open>The parameters of a definition with one parameter on each line, the parameters in
  column 4 and the defaults in column 6:
  \<^verbatim>\<open>
  def f(
      a,
      b=1,
      c=2,
  ):
  \<close>\<close>

definition arguments_one_per_line :: json where
  "arguments_one_per_line =
     arguments_node [arg_node ''a'' 4, arg_node ''b'' 4, arg_node ''c'' 4] JNull [] [] JNull
       [num_node 1 6, num_node 2 6]"

text \<open>The parameters of \<open>def f(a, *args, b=1, **kw)\<close>.\<close>

definition arguments_all_groups :: json where
  "arguments_all_groups =
     arguments_node [arg_node ''a'' 6] (arg_node ''args'' 10) [arg_node ''b'' 16] [num_node 1 18]
       (arg_node ''kw'' 23) []"

text \<open>The parameters of \<open>def f(*, a)\<close>. Python's \<open>kw_defaults\<close> has one entry for each
  keyword-only parameter, \<open>None\<close> for a parameter without a default.\<close>

definition arguments_required_kwonly :: json where
  "arguments_required_kwonly =
     arguments_node [] JNull [arg_node ''a'' 9] [JNull] JNull []"

text \<open>The tree \<open>arguments_split_lines\<close> in a store, as the parser leaves it: the two
  parameters in cells 0 and 1, the default in cell 3 (its number in cell 2), the arrays
  \<open>args\<close>, \<open>kwonlyargs\<close>, \<open>kw_defaults\<close> and \<open>defaults\<close> in cells 4 to 7, and the
  \<open>arguments\<close> node in cell 8.\<close>

definition split_lines_store :: store where
  "split_lines_store =
     [ObjectCell [(''ast_type'', RStr ''arg''), (''arg'', RStr ''a''), (''annotation'', RNull),
                  (''col_offset'', RNum 8)],
      ObjectCell [(''ast_type'', RStr ''arg''), (''arg'', RStr ''b''), (''annotation'', RNull),
                  (''col_offset'', RNum 4)],
      ObjectCell [(''ast_type'', RStr ''int''), (''n'', RNum 1)],
      ObjectCell [(''ast_type'', RStr ''Num''), (''n'', RRef 2), (''col_offset'', RNum 6)],
      ArrayCell [RRef 0, RRef 1],
      ArrayCell [],
      ArrayCell [],
      ArrayCell [RRef 3],
      ObjectCell [(''ast_type'', RStr ''arguments''), (''args'', RRef 4), (''vararg'', RNull),
                  (''kwonlyargs'', RRef 5), (''kw_defaults'', RRef 6), (''kwarg'', RNull),
                  (''defaults'', RRef 7)]]"

section \<open>Properties\<close>

subsection \<open>Auxiliary facts\<close>

lemma bindE_Inr [simp]: "bindE (Inr x) f = f x"
  by (simp add: bindE_def)

lemma bindE_Inl [simp]: "bindE (Inl e) f = Inl e"
  by (simp add: bindE_def)

text \<open>Only an object has a tag.\<close>

lemma node_of_tag:
  assumes "get n ''ast_type'' = Inr (Some (JStr t))"
  obtains fs where "n = Some (JObj fs)" and "map_of fs ''ast_type'' = Some (JStr t)"
proof (cases n)
  case None
  with assms show ?thesis by simp
next
  case (Some j)
  with assms that show ?thesis by (cases j) simp_all
qed

lemma mapE_length: "mapE f xs = Inr ys \<Longrightarrow> length ys = length xs"
  by (induction xs arbitrary: ys) (auto simp: bindE_def split: sum.splits)

text \<open>When there are as many values as keys, pairing by index is \<open>zip\<close>.\<close>

lemma map_index_zip:
  "length vs = length ks \<Longrightarrow>
   map_index (\<lambda>k i. f k (doc_at vs i)) ks = map (\<lambda>(k, v). f k v) (zip ks vs)"
  unfolding map_index_def
  by (rule nth_equalityI) (simp_all add: doc_at_def)

subsection \<open>Absent nodes and strings\<close>

text \<open>
  C9. Before the dispatch on the tag, the printer handles two inputs: a node that is
  \<open>undefined\<close> or \<open>null\<close> gives the empty string as its fragment, and a node that is itself
  a string gives that string. Neither raises UnsupportedNodeKind (nor anything else),
  whatever the callback and the parent are.
\<close>

theorem genericPrint_absent_or_string:
  "genericPrint print (Path None parent) = Inr (text_lit [])
   \<and> genericPrint print (Path (Some JNull) parent) = Inr (text_lit [])
   \<and> genericPrint print (Path (Some (JStr s)) parent) = Inr (text_lit s)"
  by (simp add: genericPrint_def Let_def)

theorem genericPrint_absent_or_string_witness:
  "genericPrint printAst (Path None (Some call_method)) = Inr (text_lit [])
   \<and> genericPrint printAst (Path (Some JNull) (Some call_method)) = Inr (text_lit [])
   \<and> genericPrint printAst (Path (Some (JStr ''method'')) (Some call_method)) = Inr (text_lit ''method'')"
  by (rule genericPrint_absent_or_string)

subsection \<open>Calls\<close>

text \<open>
  C10. For every Call node the text of the callee is the field \<open>id\<close> of the child \<open>func\<close>,
  read directly: the callback is not applied to \<open>func\<close>, so its tag is never dispatched
  on, and a callee that is not a bare name raises no UnsupportedNodeKind. When the
  arguments print as \<open>ds\<close>, the output is that \<open>id\<close> (\<open>undefined\<close> when \<open>func\<close> has none),
  \<open>(\<close>, the fragments \<open>ds\<close> joined by \<open>", "\<close>, and \<open>)\<close>. The statement holds for every
  callback \<open>print\<close>, also one that would fail on \<open>func\<close>.
\<close>

theorem genericPrint_Call:
  assumes "get n ''ast_type'' = Inr (Some (JStr ''Call''))"
      and "get n ''func'' = Inr func"
      and "get func ''id'' = Inr callee"
      and "get n ''args'' = Inr (Some (JArr as))"
      and "mapE (\<lambda>a. print (Path (Some a) n)) as = Inr ds"
    shows "genericPrint print (Path n parent) =
           Inr (Concat [Lit callee, text_lit ''('', join (text_lit '', '') ds, text_lit '')''])"
  using assms by (elim node_of_tag) (simp add: genericPrint_def Let_def path_map_def)

theorem genericPrint_Call_witness:
  "get (Some attribute_callee) ''ast_type'' = Inr (Some (JStr ''Attribute''))
   \<and> genericPrint printAst (Path (Some call_method) None) =
       Inr (Concat [Lit None, text_lit ''('', join (text_lit '', '') [text_lit ''1''], text_lit '')''])"
proof -
  have tag: "get (Some call_method) ''ast_type'' = Inr (Some (JStr ''Call''))"
    by (simp add: call_method_def)
  have func: "get (Some call_method) ''func'' = Inr (Some attribute_callee)"
    by (simp add: call_method_def)
  have callee: "get (Some attribute_callee) ''id'' = Inr None"
    by (simp add: attribute_callee_def)
  have args: "get (Some call_method) ''args'' = Inr (Some (JArr [num_node 1 11]))"
    by (simp add: call_method_def)
  have prints: "mapE (\<lambda>a. printAst (Path (Some a) (Some call_method))) [num_node 1 11] = Inr [text_lit ''1'']"
    by code_simp
  show ?thesis
    using genericPrint_Call[OF tag func callee args prints]
    by (simp add: attribute_callee_def)
qed

subsection \<open>Tuples\<close>

text \<open>
  C4. For every Tuple node with a parent node, the elements are joined by \<open>", "\<close>, and the
  result is wrapped in parentheses if and only if the tag of the parent is \<open>List\<close> or
  \<open>Tuple\<close>; under any other parent (an assignment, say) the same tuple is printed without
  parentheses.
\<close>

theorem genericPrint_Tuple:
  assumes "get n ''ast_type'' = Inr (Some (JStr ''Tuple''))"
      and "get n ''elts'' = Inr (Some (JArr es))"
      and "mapE (\<lambda>e. print (Path (Some e) n)) es = Inr ds"
      and "get parent ''ast_type'' = Inr parent_type"
    shows "genericPrint print (Path n parent) =
           Inr (if parent_type = Some (JStr ''List'') \<or> parent_type = Some (JStr ''Tuple'')
                then Concat [text_lit ''('', join (text_lit '', '') ds, text_lit '')'']
                else join (text_lit '', '') ds)"
  using assms
  by (elim node_of_tag) (simp add: genericPrint_def Let_def path_map_def needsParens_def)

theorem genericPrint_Tuple_witness:
  "genericPrint printAst (Path (Some tuple_1_2) (Some list_of_tuple)) =
     Inr (Concat [text_lit ''('', join (text_lit '', '') [text_lit ''1'', text_lit ''2''], text_lit '')''])
   \<and> genericPrint printAst (Path (Some tuple_1_2) (Some assign_tuple)) =
     Inr (join (text_lit '', '') [text_lit ''1'', text_lit ''2''])"
proof -
  have tag: "get (Some tuple_1_2) ''ast_type'' = Inr (Some (JStr ''Tuple''))"
    by (simp add: tuple_1_2_def)
  have elts: "get (Some tuple_1_2) ''elts'' = Inr (Some (JArr [num_node 1 5, num_node 2 8]))"
    by (simp add: tuple_1_2_def)
  have prints: "mapE (\<lambda>e. printAst (Path (Some e) (Some tuple_1_2))) [num_node 1 5, num_node 2 8]
                = Inr [text_lit ''1'', text_lit ''2'']"
    by code_simp
  have in_list: "get (Some list_of_tuple) ''ast_type'' = Inr (Some (JStr ''List''))"
    by (simp add: list_of_tuple_def)
  have in_assign: "get (Some assign_tuple) ''ast_type'' = Inr (Some (JStr ''Assign''))"
    by (simp add: assign_tuple_def)
  show ?thesis
    using genericPrint_Tuple[OF tag elts prints in_list]
          genericPrint_Tuple[OF tag elts prints in_assign]
    by simp
qed

subsection \<open>Dictionaries\<close>

text \<open>
  C7. For every dictionary literal (as many values as keys), the output is \<open>{\<close>, then the
  indented sequence of the pairs joined by \<open>","\<close>, then a soft break and \<open>}\<close>. Each pair
  is a soft break, the key, \<open>": "\<close> and the value. The separator is the bare comma, right
  after the value before it: there is no space before a comma.
\<close>

theorem genericPrint_Dict:
  assumes "get n ''ast_type'' = Inr (Some (JStr ''Dict''))"
      and "get n ''keys'' = Inr (Some (JArr ks))"
      and "get n ''values'' = Inr (Some (JArr vs))"
      and "length ks = length vs"
      and "mapE (\<lambda>k. print (Path (Some k) n)) ks = Inr kds"
      and "mapE (\<lambda>v. print (Path (Some v) n)) vs = Inr vds"
    shows "genericPrint print (Path n parent) =
           Inr (Concat [text_lit ''{'',
                        Indent (join (text_lit '','')
                          (map (\<lambda>(k, v). Concat [Softline, k, text_lit '': '', v]) (zip kds vds))),
                        Softline,
                        text_lit ''}''])"
proof -
  have "length vds = length kds"
    using assms(4-6) by (simp add: mapE_length)
  then show ?thesis
    using assms
    by (elim node_of_tag)
       (simp add: genericPrint_def Let_def path_map_def
        map_index_zip[of vds kds "\<lambda>k v. Concat [Softline, k, text_lit '': '', v]"])
qed

theorem genericPrint_Dict_witness:
  "genericPrint printAst (Path (Some dict_a_b) None) =
     Inr (Concat [text_lit ''{'',
                  Indent (Concat [Concat [Softline, text_lit ''a'', text_lit '': '', text_lit ''1''],
                                  text_lit '','',
                                  Concat [Softline, text_lit ''b'', text_lit '': '', text_lit ''2'']]),
                  Softline,
                  text_lit ''}''])
   \<and> map_sum id flat_text (genericPrint printAst (Path (Some dict_a_b) None)) = Inr (Some ''{a: 1,b: 2}'')"
proof -
  have tag: "get (Some dict_a_b) ''ast_type'' = Inr (Some (JStr ''Dict''))"
    by (simp add: dict_a_b_def)
  have keys: "get (Some dict_a_b) ''keys'' = Inr (Some (JArr [name_node ''a'' 1, name_node ''b'' 7]))"
    by (simp add: dict_a_b_def)
  have vals: "get (Some dict_a_b) ''values'' = Inr (Some (JArr [num_node 1 4, num_node 2 10]))"
    by (simp add: dict_a_b_def)
  have len: "length [name_node ''a'' 1, name_node ''b'' 7] = length [num_node 1 4, num_node 2 10]"
    by simp
  have kds: "mapE (\<lambda>k. printAst (Path (Some k) (Some dict_a_b))) [name_node ''a'' 1, name_node ''b'' 7]
             = Inr [text_lit ''a'', text_lit ''b'']"
    by code_simp
  have vds: "mapE (\<lambda>v. printAst (Path (Some v) (Some dict_a_b))) [num_node 1 4, num_node 2 10]
             = Inr [text_lit ''1'', text_lit ''2'']"
    by code_simp
  show ?thesis
    using genericPrint_Dict[OF tag keys vals len kds vds]
    by (simp add: join_def)
qed

subsection \<open>Comparisons\<close>

text \<open>A node tagged with a comparison operator prints as the symbol of the table.\<close>

lemma printAst_comparison_operator:
  assumes "get v ''ast_type'' = Inr (Some (JStr t))"
      and "map_of comparison_symbols t = Some s"
    shows "printAst (Path v parent) = Inr (text_lit s)"
  using assms
  by (elim node_of_tag, subst printAst.simps)
     (auto simp: comparison_symbols_def genericPrint_def Let_def split: if_splits)

lemma mapE_operators:
  assumes "list_all2 (\<lambda>op s. \<exists>t. get (Some op) ''ast_type'' = Inr (Some (JStr t))
                              \<and> map_of comparison_symbols t = Some s) os syms"
  shows "mapE (\<lambda>op. printAst (Path (Some op) n)) os = Inr (map text_lit syms)"
  using assms
  by (induction rule: list_all2_induct) (auto simp: printAst_comparison_operator)

text \<open>
  C6. For every comparison node whose operator list and comparator list have the same
  length, whose operators are comparison operators of the table with the symbols \<open>syms\<close>,
  and whose left operand and comparators print as \<open>l\<close> and \<open>cds\<close>: the output is \<open>l\<close>
  followed, for each pair of an operator and a comparator in order, by a space, the
  symbol of the operator, a space and the fragment of the comparator. Nothing else is
  added, no parentheses in particular: \<open>a < b <= c\<close> is printed as \<open>a < b <= c\<close>.
\<close>

theorem printAst_Compare:
  assumes "get n ''ast_type'' = Inr (Some (JStr ''Compare''))"
      and "get n ''ops'' = Inr (Some (JArr os))"
      and "get n ''comparators'' = Inr (Some (JArr cs))"
      and "length os = length cs"
      and "list_all2 (\<lambda>op s. \<exists>t. get (Some op) ''ast_type'' = Inr (Some (JStr t))
                              \<and> map_of comparison_symbols t = Some s) os syms"
      and "mapE (\<lambda>c. printAst (Path (Some c) n)) cs = Inr cds"
      and "get n ''left'' = Inr lv"
      and "printAst (Path lv n) = Inr l"
    shows "printAst (Path n parent) =
           Inr (Concat (l # map (\<lambda>(s, c). Concat [text_lit '' '', text_lit s, text_lit '' '', c])
                                (zip syms cds)))"
proof -
  have ops: "mapE (\<lambda>op. printAst (Path (Some op) n)) os = Inr (map text_lit syms)"
    using assms(5) by (rule mapE_operators)
  have len: "length cds = length (map text_lit syms)"
    using assms(4,6) ops
    by (simp add: mapE_length[of _ cs] mapE_length[of _ os, symmetric] del: length_map)
  have pairs: "map_index (\<lambda>op i. Concat [text_lit '' '', op, text_lit '' '', doc_at cds i]) (map text_lit syms)
               = map (\<lambda>(s, c). Concat [text_lit '' '', text_lit s, text_lit '' '', c]) (zip syms cds)"
    unfolding map_index_zip[of cds "map text_lit syms" "\<lambda>op c. Concat [text_lit '' '', op, text_lit '' '', c]", OF len]
    by (simp add: zip_map1 case_prod_unfold)
  show ?thesis
    using assms(1-3,6-8) ops pairs
    by (subst printAst.simps, elim node_of_tag)
       (simp add: genericPrint_def Let_def path_map_def path_call_def)
qed

theorem printAst_Compare_witness:
  "printAst (Path (Some compare_chain) None) =
     Inr (Concat [text_lit ''a'',
                  Concat [text_lit '' '', text_lit ''<'', text_lit '' '', text_lit ''b''],
                  Concat [text_lit '' '', text_lit ''<='', text_lit '' '', text_lit ''c'']])
   \<and> map_sum id flat_text (printAst (Path (Some compare_chain) None)) = Inr (Some ''a < b <= c'')"
proof -
  have tag: "get (Some compare_chain) ''ast_type'' = Inr (Some (JStr ''Compare''))"
    by (simp add: compare_chain_def)
  have ops: "get (Some compare_chain) ''ops'' =
             Inr (Some (JArr [JObj [(''ast_type'', JStr ''Lt'')], JObj [(''ast_type'', JStr ''LtE'')]]))"
    by (simp add: compare_chain_def)
  have cs: "get (Some compare_chain) ''comparators'' = Inr (Some (JArr [name_node ''b'' 4, name_node ''c'' 9]))"
    by (simp add: compare_chain_def)
  have len: "length [JObj [(''ast_type'', JStr ''Lt'')], JObj [(''ast_type'', JStr ''LtE'')]]
             = length [name_node ''b'' 4, name_node ''c'' 9]"
    by simp
  have syms: "list_all2 (\<lambda>op s. \<exists>t. get (Some op) ''ast_type'' = Inr (Some (JStr t))
                                 \<and> map_of comparison_symbols t = Some s)
                [JObj [(''ast_type'', JStr ''Lt'')], JObj [(''ast_type'', JStr ''LtE'')]] [''<'', ''<='']"
    by (simp add: comparison_symbols_def)
  have cds: "mapE (\<lambda>c. printAst (Path (Some c) (Some compare_chain))) [name_node ''b'' 4, name_node ''c'' 9]
             = Inr [text_lit ''b'', text_lit ''c'']"
    by code_simp
  have lv: "get (Some compare_chain) ''left'' = Inr (Some (name_node ''a'' 0))"
    by (simp add: compare_chain_def)
  have l: "printAst (Path (Some (name_node ''a'' 0)) (Some compare_chain)) = Inr (text_lit ''a'')"
    by code_simp
  show ?thesis
    using printAst_Compare[OF tag ops cs len syms cds lv l, of None]
    by simp
qed

subsection \<open>Augmented assignment\<close>

text \<open>
  C3, as the code has it. For every augmented assignment node whose operator is \<open>Add\<close>
  and whose target and value print as \<open>t\<close> and \<open>v\<close>, the output is \<open>t\<close>, a space, \<open>+\<close>,
  the literal \<open>"= "\<close> and \<open>v\<close>: a space before the operator symbol, none between the symbol
  and \<open>=\<close>, and one space after \<open>=\<close>. For the target \<open>x\<close> and the value \<open>1\<close> the text is
  \<open>x += 1\<close>.
\<close>

theorem printAst_AugAssign_Add:
  assumes "get n ''ast_type'' = Inr (Some (JStr ''AugAssign''))"
      and "get n ''target'' = Inr tv" and "printAst (Path tv n) = Inr t"
      and "get n ''op'' = Inr op" and "get op ''ast_type'' = Inr (Some (JStr ''Add''))"
      and "get n ''value'' = Inr vv" and "printAst (Path vv n) = Inr v"
      and "flat_text t = Some ts" and "flat_text v = Some vs"
    shows "printAst (Path n parent) =
             Inr (Concat [t, text_lit '' '', text_lit ''+'', text_lit ''= '', v])
           \<and> flat_text (Concat [t, text_lit '' '', text_lit ''+'', text_lit ''= '', v]) =
             Some (ts @ '' += '' @ vs)"
proof -
  have op: "printAst (Path op n) = Inr (text_lit ''+'')"
    using assms(5)
    by (subst printAst.simps, elim node_of_tag) (simp add: genericPrint_def Let_def)
  have "printAst (Path n parent) = Inr (Concat [t, text_lit '' '', text_lit ''+'', text_lit ''= '', v])"
    using assms(1-4,6,7) op
    by (subst printAst.simps, elim node_of_tag)
       (simp add: genericPrint_def Let_def path_call_def)
  moreover have "flat_text (Concat [t, text_lit '' '', text_lit ''+'', text_lit ''= '', v]) =
             Some (ts @ '' += '' @ vs)"
    using assms(8,9) by simp
  ultimately show ?thesis by simp
qed

theorem printAst_AugAssign_Add_witness:
  "printAst (Path (Some aug_x_1) None) =
     Inr (Concat [text_lit ''x'', text_lit '' '', text_lit ''+'', text_lit ''= '', text_lit ''1''])
   \<and> flat_text (Concat [text_lit ''x'', text_lit '' '', text_lit ''+'', text_lit ''= '', text_lit ''1'']) =
     Some ''x += 1''"
proof -
  have tag: "get (Some aug_x_1) ''ast_type'' = Inr (Some (JStr ''AugAssign''))"
    by (simp add: aug_x_1_def)
  have tv: "get (Some aug_x_1) ''target'' = Inr (Some (name_node ''x'' 0))"
    by (simp add: aug_x_1_def)
  have t: "printAst (Path (Some (name_node ''x'' 0)) (Some aug_x_1)) = Inr (text_lit ''x'')"
    by code_simp
  have op: "get (Some aug_x_1) ''op'' = Inr (Some (JObj [(''ast_type'', JStr ''Add'')]))"
    by (simp add: aug_x_1_def)
  have op_tag: "get (Some (JObj [(''ast_type'', JStr ''Add'')])) ''ast_type'' = Inr (Some (JStr ''Add''))"
    by simp
  have vv: "get (Some aug_x_1) ''value'' = Inr (Some (num_node 1 5))"
    by (simp add: aug_x_1_def)
  have v: "printAst (Path (Some (num_node 1 5)) (Some aug_x_1)) = Inr (text_lit ''1'')"
    by code_simp
  have ts: "flat_text (text_lit ''x'') = Some ''x''" and vs: "flat_text (text_lit ''1'') = Some ''1''"
    by simp_all
  show ?thesis
    using printAst_AugAssign_Add[OF tag tv t op op_tag vv v ts vs, of None]
    by simp
qed

text \<open>The text \<open>x +=1\<close> of the claim, with no space after \<open>=\<close>, is not what the printer
  writes for \<open>x += 1\<close>.\<close>

theorem printAst_AugAssign_text_counterexample:
  "map_sum id flat_text (printAst (Path (Some aug_x_1) None)) = Inr (Some ''x += 1'')
   \<and> map_sum id flat_text (printAst (Path (Some aug_x_1) None)) \<noteq> Inr (Some ''x +=1'')"
  by code_simp

subsection \<open>The fragment is a function of the node\<close>

lemma path_call_parent: "path_call print (Path n a) k = path_call print (Path n b) k"
  by (simp add: path_call_def)

lemma path_call_at_parent: "path_call_at print (Path n a) k i = path_call_at print (Path n b) k i"
  by (simp add: path_call_at_def)

lemma path_map_parent: "path_map print (Path n a) k = path_map print (Path n b) k"
  unfolding path_map_def path.sel ..

lemma walk_parent:
  "walk print (Path n a) ak dk ms ca cd = walk print (Path n b) ak dk ms ca cd"
proof (induction ms arbitrary: ca cd rule: induct_list012)
  case 1
  show ?case by simp
next
  case (2 m)
  show ?case by (simp add: path_call_at_parent[of print n a _ _ b])
next
  case (3 m nxt rest)
  show ?case
    by (simp add: path_call_at_parent[of print n a _ _ b] 3 cong: if_cong)
qed

lemma printArguments_parent:
  "printArguments print (Path n a) ak dk = printArguments print (Path n b) ak dk"
  by (simp add: printArguments_def walk_parent[of print n a _ _ _ _ _ b])

lemma genericPrint_parent:
  assumes "get n ''ast_type'' = Inr (Some (JStr ''Tuple'')) \<longrightarrow>
           needsParens (Path n a) = needsParens (Path n b)"
  shows "genericPrint print (Path n a) = genericPrint print (Path n b)"
proof (cases "get n ''ast_type'' = Inr (Some (JStr ''Tuple''))")
  case True
  with assms have "needsParens (Path n a) = needsParens (Path n b)" by simp
  with True show ?thesis
    by (simp add: genericPrint_def Let_def path_map_parent[of print n a _ b])
next
  case False
  then show ?thesis
    unfolding genericPrint_def Let_def path_call_parent[of print n a _ b]
      path_map_parent[of print n a _ b] printArguments_parent[of print n a _ _ b]
    by (cases "get n ''ast_type''") simp_all
qed

text \<open>
  The fragment depends on the path only through the current node and, for a Tuple node,
  through the test \<open>needsParens\<close> on the tag of the parent: two paths to the same node
  print alike, unless the node is a Tuple and the test differs.
\<close>

lemma printAst_pure:
  assumes "getValue p = getValue q"
      and "get (getValue p) ''ast_type'' = Inr (Some (JStr ''Tuple'')) \<longrightarrow>
           needsParens p = needsParens q"
    shows "printAst p = printAst q"
proof -
  obtain n a where p: "p = Path n a" by (cases p)
  obtain b where q: "q = Path n b" using assms(1) p by (cases q) simp
  show ?thesis
    unfolding p q printAst.simps[of "Path n a"] printAst.simps[of "Path n b"]
    using assms(2) by (intro genericPrint_parent) (simp add: p q)
qed

lemma printAst_pure_tuple_parents:
  "printAst (Path (Some tuple_1_2) (Some list_of_tuple)) =
   printAst (Path (Some tuple_1_2) (Some tuple_of_tuple))
   \<and> printAst (Path (Some compare_chain) None) =
     printAst (Path (Some compare_chain) (Some assign_tuple))"
proof -
  have parens: "needsParens (Path (Some tuple_1_2) (Some list_of_tuple)) =
                needsParens (Path (Some tuple_1_2) (Some tuple_of_tuple))"
    by (simp add: needsParens_def list_of_tuple_def tuple_of_tuple_def)
  have not_tuple: "get (Some compare_chain) ''ast_type'' \<noteq> Inr (Some (JStr ''Tuple''))"
    by (simp add: compare_chain_def)
  show ?thesis
    using printAst_pure[of "Path (Some tuple_1_2) (Some list_of_tuple)"
                           "Path (Some tuple_1_2) (Some tuple_of_tuple)"]
          printAst_pure[of "Path (Some compare_chain) None"
                           "Path (Some compare_chain) (Some assign_tuple)"]
          parens not_tuple
    by simp
qed

subsection \<open>Printing leaves the tree as it was\<close>

text \<open>The printer over the store follows the printer over trees: started on a path whose
  node and parent represent trees, in any store that extends the one they are
  represented in, each computation returns what the first embedding returns on those
  trees, and leaves a store that extends the one it started in.\<close>

lemma extends_refl [simp]: "extends s s"
  by (simp add: extends_def)

lemma extends_trans: "extends s t \<Longrightarrow> extends t u \<Longrightarrow> extends s u"
  by (auto simp: extends_def)

lemma extends_cell_at: "extends s t \<Longrightarrow> cell_at s a = Some c \<Longrightarrow> cell_at t a = Some c"
  by (auto simp: extends_def cell_at_def nth_append split: if_splits)

lemma sim_return: "R x y \<Longrightarrow> sim s0 R (returnS x) (Inr y)"
  by (simp add: sim_def returnS_def)

lemma sim_throw: "error_rep s0 e e' \<Longrightarrow> sim s0 R (throwS e) (Inl e')"
  by (simp add: sim_def throwS_def)

lemma sim_bind:
  assumes "sim s0 R M m"
      and "\<And>x y. R x y \<Longrightarrow> sim s0 S (F x) (f y)"
    shows "sim s0 S (bindS M F) (bindE m f)"
  unfolding sim_def
proof (intro allI impI)
  fix s assume s: "extends s0 s"
  from assms(1) s obtain s1 r where M: "M s = Some (s1, r)" and e1: "extends s s1"
    and rel: "rel_sum (error_rep s0) R r m"
    unfolding sim_def by blast
  show "\<exists>s' r. bindS M F s = Some (s', r) \<and> extends s s' \<and> rel_sum (error_rep s0) S r (bindE m f)"
  proof (cases r)
    case (Inl e)
    with rel obtain e' where "m = Inl e'" "error_rep s0 e e'"
      by (cases m) auto
    with M e1 Inl show ?thesis
      by (auto simp: bindS_def)
  next
    case (Inr x)
    with rel obtain y where m: "m = Inr y" and xy: "R x y"
      by (cases m) auto
    from s e1 have "extends s0 s1" by (rule extends_trans)
    with assms(2)[OF xy] obtain s2 r2 where "F x s1 = Some (s2, r2)" "extends s1 s2"
      "rel_sum (error_rep s0) S r2 (f y)"
      unfolding sim_def by blast
    with M Inr m e1 show ?thesis
      by (auto simp: bindS_def intro: extends_trans)
  qed
qed

lemma sim_read:
  assumes "\<And>s. extends s0 s \<Longrightarrow> rel_sum (error_rep s0) R (f s) m"
  shows "sim s0 R (readS f) m"
  using assms by (simp add: sim_def readS_def)

lemma sim_mapS:
  assumes "list_all2 (\<lambda>x y. sim s0 R (F x) (f y)) xs ys"
  shows "sim s0 (list_all2 R) (mapS F xs) (mapE f ys)"
  using assms
proof (induction rule: list_all2_induct)
  case Nil
  show ?case by (simp add: sim_return)
next
  case (Cons x xs y ys)
  show ?case
    unfolding mapS.simps mapE.simps
    by (intro sim_bind[OF Cons.hyps(1)] sim_bind[OF Cons.IH] sim_return) simp
qed

text \<open>Reads of represented values.\<close>

lemma rep_val_simps [simp]:
  "rep_val s None j = (j = None)"
  "rep_val s v None = (v = None)"
  "rep_val s (Some x) (Some y) = rep s x y"
proof -
  show "rep_val s None j = (j = None)" by (cases j) (simp_all add: rep_val_def)
  show "rep_val s v None = (v = None)" by (cases v) (simp_all add: rep_val_def)
  show "rep_val s (Some x) (Some y) = rep s x y" by (simp add: rep_val_def)
qed

lemma rep_scalar_iffs [simp]:
  "rep s RNull j = (j = JNull)"
  "rep s (RBool b) j = (j = JBool b)"
  "rep s (RNum k) j = (j = JNum k)"
  "rep s (RStr t) j = (j = JStr t)"
  "rep s x JNull = (x = RNull)"
  "rep s x (JBool b) = (x = RBool b)"
  "rep s x (JNum k) = (x = RNum k)"
  "rep s x (JStr t) = (x = RStr t)"
  by (auto elim: rep.cases intro: rep.intros)

lemma rep_JArr: "rep s x (JArr js) = (\<exists>a xs. x = RRef a \<and> cell_at s a = Some (ArrayCell xs) \<and> list_all2 (rep s) xs js)"
  by (auto elim: rep.cases intro: rep.intros)

lemma rep_JObj: "rep s x (JObj gs) = (\<exists>a fs. x = RRef a \<and> cell_at s a = Some (ObjectCell fs)
     \<and> list_all2 (\<lambda>f g. fst f = fst g \<and> rep s (snd f) (snd g)) fs gs)"
  by (auto elim: rep.cases intro: rep.intros)

lemma truthy_rep: "rep_val s v j \<Longrightarrow> truthy_ref v = truthy j"
  by (cases j; cases v; simp) (auto elim: rep.cases)

lemma is_string_rep: "rep_val s v j \<Longrightarrow> is_string_ref v = is_string j"
  by (cases j; cases v; simp) (auto elim: rep.cases)

lemma greater_zero_rep: "rep_val s v j \<Longrightarrow> greater_zero_ref v = greater_zero j"
  by (cases j; cases v; simp) (auto elim: rep.cases)

lemma map_of_rep:
  assumes "list_all2 (\<lambda>f g. fst f = fst g \<and> rep s (snd f) (snd g)) fs gs"
  shows "rep_val s (map_of fs k) (map_of gs k)"
  using assms by (induction rule: list_all2_induct) auto

lemma get_rep:
  assumes "rep_val s0 v j" and "extends s0 s"
  shows "rel_sum (error_rep s0) (rep_val s0) (get_ref s v k) (get j k)"
proof (cases j)
  case None
  with assms show ?thesis by simp
next
  case (Some y)
  with assms obtain x where v: "v = Some x" and xy: "rep s0 x y"
    by (cases v) auto
  from xy show ?thesis
  proof cases
    case (rep_array a xs js)
    with assms(2) have "cell_at s a = Some (ArrayCell xs)" by (auto intro: extends_cell_at)
    with rep_array v Some show ?thesis by (auto dest: list_all2_lengthD)
  next
    case (rep_object a fs gs)
    with assms(2) have "cell_at s a = Some (ObjectCell fs)" by (auto intro: extends_cell_at)
    with rep_object v Some show ?thesis by (auto intro: map_of_rep)
  qed (simp_all add: v Some)
qed

lemma index_rep:
  assumes "rep_val s0 v j" and "extends s0 s"
  shows "rep_val s0 (index_ref s v i) (index j i)"
proof (cases j)
  case None
  with assms show ?thesis by simp
next
  case (Some y)
  with assms obtain x where v: "v = Some x" and xy: "rep s0 x y"
    by (cases v) auto
  from xy show ?thesis
  proof cases
    case (rep_array a xs js)
    with assms(2) have "cell_at s a = Some (ArrayCell xs)" by (auto intro: extends_cell_at)
    with rep_array v Some show ?thesis
      by (auto dest: list_all2_lengthD list_all2_nthD)
  next
    case (rep_object a fs gs)
    with assms(2) have "cell_at s a = Some (ObjectCell fs)" by (auto intro: extends_cell_at)
    with rep_object v Some show ?thesis by auto
  qed (simp_all add: v Some)
qed

lemma spread_rep:
  assumes "rep_val s0 v j" and "extends s0 s"
  shows "rel_sum (error_rep s0) (list_all2 (rep s0)) (spread_ref s v) (spread j)"
proof (cases j)
  case None
  with assms show ?thesis by simp
next
  case (Some y)
  with assms obtain x where v: "v = Some x" and xy: "rep s0 x y"
    by (cases v) auto
  from xy show ?thesis
  proof cases
    case (rep_array a xs js)
    with assms(2) have "cell_at s a = Some (ArrayCell xs)" by (auto intro: extends_cell_at)
    with rep_array v Some show ?thesis by auto
  next
    case (rep_object a fs gs)
    with assms(2) have "cell_at s a = Some (ObjectCell fs)" by (auto intro: extends_cell_at)
    with rep_object v Some show ?thesis by auto
  next
    case (rep_str t)
    then show ?thesis by (simp add: v Some list_all2_map1 list_all2_map2 list_all2_same)
  qed (simp_all add: v Some)
qed

text \<open>Strings, column offsets and the sort: on represented values they are those of the
  first embedding. The sort writes to the cell that the spread has just allocated, past
  every cell of the store the call started in.\<close>

lemma map_eq_if_list_all2:
  assumes "list_all2 P xs ys" and "\<And>x y. P x y \<Longrightarrow> f x = g y"
  shows "map f xs = map g ys"
  using assms by (induction rule: list_all2_induct) auto

lemma size_elem_le: "j \<in> set js \<Longrightarrow> Suc (size j) \<le> size (JArr js)"
  using elem_size[of j js] by simp

lemma to_string_rep:
  assumes "rep s0 x j" and "extends s0 s"
  shows "size j \<le> k \<Longrightarrow> to_string_ref k s x = to_string_json j"
  using assms(1)
proof (induction arbitrary: k rule: rep.induct)
  case (rep_array a xs js)
  from rep_array.prems obtain k' where k: "k = Suc k'"
    by (cases k) simp_all
  have cell: "cell_at s a = Some (ArrayCell xs)"
    using rep_array.hyps(1) assms(2) by (rule extends_cell_at[rotated])
  have "map (\<lambda>x. if x = RNull then [] else to_string_ref k' s x) xs =
        map (\<lambda>j. if j = JNull then [] else to_string_json j) js"
  proof (rule nth_equalityI)
    show "length (map (\<lambda>x. if x = RNull then [] else to_string_ref k' s x) xs) =
          length (map (\<lambda>j. if j = JNull then [] else to_string_json j) js)"
      using rep_array.IH by (simp add: list_all2_lengthD)
  next
    fix i assume "i < length (map (\<lambda>x. if x = RNull then [] else to_string_ref k' s x) xs)"
    then have i: "i < length xs" by simp
    then have ij: "i < length js" using rep_array.IH by (simp add: list_all2_lengthD)
    from list_all2_nthD[OF rep_array.IH i]
    have r: "rep s0 (xs ! i) (js ! i)"
      and ih: "\<And>k. size (js ! i) \<le> k \<Longrightarrow> to_string_ref k s (xs ! i) = to_string_json (js ! i)"
      by simp_all
    have "Suc (size (js ! i)) \<le> size (JArr js)"
      using ij by (intro size_elem_le) simp
    with rep_array.prems k have "size (js ! i) \<le> k'" by simp
    from ih[OF this] r i ij
    show "map (\<lambda>x. if x = RNull then [] else to_string_ref k' s x) xs ! i =
          map (\<lambda>j. if j = JNull then [] else to_string_json j) js ! i"
      by auto
  qed
  with cell k show ?case by simp
next
  case (rep_object a fs gs)
  from rep_object.prems obtain k' where k: "k = Suc k'"
    by (cases k) simp_all
  have "cell_at s a = Some (ObjectCell fs)"
    using rep_object.hyps(1) assms(2) by (rule extends_cell_at[rotated])
  with k show ?case by simp
qed simp_all

lemma to_string_val_rep:
  assumes "rep_val s0 v j" and "extends s0 s" and "value_size j \<le> k"
  shows "to_string_val k s v = to_string j"
  using assms
  by (cases j; cases v) (simp_all add: to_string_val_def to_string_def value_size_def to_string_rep)

lemma loosely_differs_rep:
  assumes "rep_val s0 v j" and "extends s0 s" and "value_size j \<le> k"
  shows "loosely_differs_ref k s v t = loosely_differs j t"
proof (cases j)
  case None
  with assms show ?thesis by simp
next
  case (Some y)
  with assms obtain x where v: "v = Some x" and xy: "rep s0 x y"
    by (cases v) auto
  from xy show ?thesis
  proof cases
    case (rep_array a xs js)
    with assms(2) have "cell_at s a = Some (ArrayCell xs)" by (auto intro: extends_cell_at)
    moreover have "to_string_ref k s x = to_string_json y"
      using xy assms(2,3) Some by (intro to_string_rep) (simp_all add: value_size_def)
    ultimately show ?thesis using rep_array v Some by simp
  next
    case (rep_object a fs gs)
    with assms(2) have "cell_at s a = Some (ObjectCell fs)" by (auto intro: extends_cell_at)
    with rep_object v Some show ?thesis by simp
  qed (simp_all add: v Some)
qed

lemma col_offset_rep:
  assumes "rep s0 x j" and "extends s0 s"
  shows "col_offset_ref s x = col_offset j"
  using assms(1)
proof cases
  case (rep_object a fs gs)
  with assms(2) have cell: "cell_at s a = Some (ObjectCell fs)" by (auto intro: extends_cell_at)
  have "rep_val s0 (map_of fs ''col_offset'') (map_of gs ''col_offset'')"
    using rep_object(4) by (rule map_of_rep)
  then show ?thesis
    using rep_object cell
    by (cases "map_of gs ''col_offset''"; cases "map_of fs ''col_offset''")
       (auto split: json.splits ref_json.splits)
next
  case (rep_array a xs js)
  with assms(2) have "cell_at s a = Some (ArrayCell xs)" by (auto intro: extends_cell_at)
  with rep_array show ?thesis by simp
qed simp_all

lemma insort_key_rel:
  assumes "list_all2 R xs ys" and "R x y"
      and "\<And>x y. R x y \<Longrightarrow> f x = g y"
    shows "list_all2 R (insort_key f x xs) (insort_key g y ys)"
  using assms(1)
proof (induction rule: list_all2_induct)
  case Nil
  with assms(2) show ?case by simp
next
  case (Cons a as b bs)
  with assms(2,3) show ?case by (auto simp: assms(3)[OF assms(2)])
qed

lemma sort_key_rel:
  assumes "list_all2 R xs ys"
      and "\<And>x y. R x y \<Longrightarrow> f x = g y"
    shows "list_all2 R (sort_key f xs) (sort_key g ys)"
  using assms(1)
  by (induction rule: list_all2_induct) (auto intro: insort_key_rel assms(2))

lemma null_in_rep:
  assumes "list_all2 (rep s0) xs js"
  shows "RNull \<in> set xs \<longleftrightarrow> JNull \<in> set js"
  using assms by (induction rule: list_all2_induct) auto

lemma bindS_assoc: "bindS (bindS m f) g = bindS m (\<lambda>x. bindS (f x) g)"
  by (auto simp: bindS_def fun_eq_iff split: option.splits sum.splits)

text \<open>Fragments built from represented parts.\<close>

lemma join_parts_rep:
  assumes "list_all2 (doc_rep s) ds es" and "doc_rep s sep sep'"
  shows "list_all2 (doc_rep s) (join_parts_ref sep ds) (join_parts sep' es)"
  using assms(1)
proof (induction ds arbitrary: es rule: induct_list012)
  case 1
  then show ?case by simp
next
  case (2 d)
  then show ?case by (auto simp: list_all2_Cons1)
next
  case (3 d e ds)
  from 3(3) obtain d' e' es' where es: "es = d' # e' # es'" and d: "doc_rep s d d'"
    and rest: "list_all2 (doc_rep s) (e # ds) (e' # es')"
    by (auto simp: list_all2_Cons1)
  from 3(2)[OF rest] d assms(2) show ?case
    by (simp add: es)
qed

lemma join_rep:
  "list_all2 (doc_rep s) ds es \<Longrightarrow> doc_rep s sep sep' \<Longrightarrow> doc_rep s (join_ref sep ds) (join sep' es)"
  by (simp add: join_ref_def join_def doc_concat join_parts_rep)

lemma doc_at_rep:
  "list_all2 (doc_rep s) ds es \<Longrightarrow> doc_rep s (ref_doc_at ds i) (doc_at es i)"
  by (auto simp: ref_doc_at_def doc_at_def list_all2_lengthD list_all2_nthD intro: doc_rep.intros)

lemma map_index_rep:
  assumes "list_all2 (doc_rep s) ds es"
      and "\<And>d e i. doc_rep s d e \<Longrightarrow> doc_rep s (F d i) (f e i)"
    shows "list_all2 (doc_rep s) (map_index_ref F ds) (map_index f es)"
  using assms
  by (auto simp: map_index_ref_def map_index_def list_all2_conv_all_nth)

text \<open>Reading a field of a represented value gives a represented value, no larger.\<close>

lemma val_relI:
  assumes "rep_val s0 v j" and "value_size j \<le> b"
  shows "val_rel s0 b v j"
  unfolding val_rel_def
  using assms truthy_rep[OF assms(1)] is_string_rep[OF assms(1)] greater_zero_rep[OF assms(1)]
  by (cases j; cases v) auto

lemma value_size_get:
  assumes "get j k = Inr w"
  shows "value_size w \<le> value_size j"
proof (cases j)
  case None
  with assms show ?thesis by simp
next
  case (Some y)
  show ?thesis
  proof (cases y)
    case (JObj fs)
    with assms Some have "w = map_of fs k" by simp
    then show ?thesis
      using value_size_field[of fs k] by (simp add: Some JObj value_size_def)
  qed (use assms Some in \<open>auto simp: value_size_def split: if_splits\<close>)
qed

lemma sim_get:
  assumes "rep_val s0 n j" and "value_size j \<le> b"
  shows "sim s0 (val_rel s0 b) (readS (\<lambda>st. get_ref st n k)) (get j k)"
proof (rule sim_read)
  fix s assume "extends s0 s"
  from get_rep[OF assms(1) this, of k] value_size_get[of j k] assms(2)
  show "rel_sum (error_rep s0) (val_rel s0 b) (get_ref s n k) (get j k)"
    by (cases "get_ref s n k"; cases "get j k") (auto intro!: val_relI)
qed

lemma sim_path_call:
  assumes p: "path_rep s0 p p'"
      and n: "getValue p' = Some (JObj fs)"
      and cb: "\<And>c c'. path_rep s0 c c' \<Longrightarrow> value_size (getValue c') < value_size (getValue p')
                 \<Longrightarrow> sim s0 (doc_rep s0) (print c) (print' c')"
    shows "sim s0 (doc_rep s0) (path_callS print p k) (path_call print' p' k)"
  unfolding sim_def
proof (intro allI impI)
  fix s assume s: "extends s0 s"
  from p have nrep: "rep_val s0 (getValueS p) (Some (JObj fs))"
    by (simp add: path_rep_def n)
  from get_rep[OF nrep s, of k] obtain w where w: "get_ref s (getValueS p) k = Inr w"
    and wrep: "rep_val s0 w (map_of fs k)"
    by (cases "get_ref s (getValueS p) k") auto
  have "path_rep s0 (RPath w (getValueS p)) (Path (map_of fs k) (getValue p'))"
    using wrep nrep by (simp add: path_rep_def n)
  moreover have "value_size (map_of fs k) < value_size (getValue p')"
    using value_size_field[of fs k] by (simp add: n value_size_def)
  ultimately have "sim s0 (doc_rep s0) (print (RPath w (getValueS p))) (print' (Path (map_of fs k) (getValue p')))"
    by (intro cb) simp_all
  with s w show "\<exists>s' r. path_callS print p k s = Some (s', r) \<and> extends s s' \<and>
               rel_sum (error_rep s0) (doc_rep s0) r (path_call print' p' k)"
    by (simp add: sim_def path_callS_def path_call_def bindS_def readS_def n)
qed

lemma sim_path_call_at:
  assumes p: "path_rep s0 p p'"
      and n: "getValue p' = Some (JObj fs)"
      and cb: "\<And>c c'. path_rep s0 c c' \<Longrightarrow> value_size (getValue c') < value_size (getValue p')
                 \<Longrightarrow> sim s0 (doc_rep s0) (print c) (print' c')"
    shows "sim s0 (doc_rep s0) (path_call_atS print p k i) (path_call_at print' p' k i)"
  unfolding sim_def
proof (intro allI impI)
  fix s assume s: "extends s0 s"
  from p have nrep: "rep_val s0 (getValueS p) (Some (JObj fs))"
    by (simp add: path_rep_def n)
  from get_rep[OF nrep s, of k] obtain w where w: "get_ref s (getValueS p) k = Inr w"
    and wrep: "rep_val s0 w (map_of fs k)"
    by (cases "get_ref s (getValueS p) k") auto
  have erep: "rep_val s0 (index_ref s w i) (index (map_of fs k) i)"
    using wrep s by (rule index_rep)
  have "path_rep s0 (RPath (index_ref s w i) (getValueS p)) (Path (index (map_of fs k) i) (getValue p'))"
    using erep nrep by (simp add: path_rep_def n)
  moreover have "value_size (index (map_of fs k) i) < value_size (getValue p')"
    using value_size_field[of fs k] value_size_index[of "map_of fs k" i] by (simp add: n value_size_def)
  ultimately have "sim s0 (doc_rep s0) (print (RPath (index_ref s w i) (getValueS p)))
                     (print' (Path (index (map_of fs k) i) (getValue p')))"
    by (intro cb) simp_all
  with s w show "\<exists>s' r. path_call_atS print p k i s = Some (s', r) \<and> extends s s' \<and>
               rel_sum (error_rep s0) (doc_rep s0) r (path_call_at print' p' k i)"
    by (simp add: sim_def path_call_atS_def path_call_at_def bindS_def readS_def n)
qed

lemma sim_path_map:
  assumes p: "path_rep s0 p p'"
      and n: "getValue p' = Some (JObj fs)"
      and cb: "\<And>c c'. path_rep s0 c c' \<Longrightarrow> value_size (getValue c') < value_size (getValue p')
                 \<Longrightarrow> sim s0 (doc_rep s0) (print c) (print' c')"
    shows "sim s0 (list_all2 (doc_rep s0)) (path_mapS print p k) (path_map print' p' k)"
  unfolding sim_def
proof (intro allI impI)
  fix s assume s: "extends s0 s"
  from p have nrep: "rep_val s0 (getValueS p) (Some (JObj fs))"
    by (simp add: path_rep_def n)
  from get_rep[OF nrep s, of k] obtain w where w: "get_ref s (getValueS p) k = Inr w"
    and wrep: "rep_val s0 w (map_of fs k)"
    by (cases "get_ref s (getValueS p) k") auto
  show "\<exists>s' r. path_mapS print p k s = Some (s', r) \<and> extends s s' \<and>
               rel_sum (error_rep s0) (list_all2 (doc_rep s0)) r (path_map print' p' k)"
  proof (cases "map_of fs k")
    case None
    with wrep w show ?thesis
      by (simp add: path_mapS_def path_map_def bindS_def readS_def throwS_def n)
  next
    case (Some y)
    with wrep obtain x where x: "w = Some x" and xy: "rep s0 x y"
      by (cases w) auto
    from xy show ?thesis
    proof cases
      case (rep_array a xs js)
      have cell: "cell_at s a = Some (ArrayCell xs)"
        using rep_array(3) s by (rule extends_cell_at[rotated])
      have "list_all2 (\<lambda>x y. sim s0 (doc_rep s0) (print (RPath (Some x) (getValueS p)))
                                 (print' (Path (Some y) (getValue p')))) xs js"
      proof (rule list.rel_mono_strong[OF rep_array(4)])
        fix x y assume "x \<in> set xs" and y: "y \<in> set js" and xy: "rep s0 x y"
        have "size y < size (JArr js)" using y by (rule elem_size)
        also have "\<dots> < size (JObj fs)"
          using Some rep_array(2) map_of_size[of fs k "JArr js"] by simp
        finally have "value_size (Some y) < value_size (getValue p')"
          by (simp add: value_size_def n)
        moreover have "path_rep s0 (RPath (Some x) (getValueS p)) (Path (Some y) (getValue p'))"
          using xy nrep by (simp add: path_rep_def n)
        ultimately show "sim s0 (doc_rep s0) (print (RPath (Some x) (getValueS p)))
                                 (print' (Path (Some y) (getValue p')))"
          by (intro cb) simp_all
      qed
      then have "sim s0 (list_all2 (doc_rep s0)) (mapS (\<lambda>x. print (RPath (Some x) (getValueS p))) xs)
                   (mapE (\<lambda>y. print' (Path (Some y) (getValue p'))) js)"
        by (rule sim_mapS)
      with s w x rep_array Some cell show ?thesis
        by (simp add: sim_def path_mapS_def path_map_def bindS_def readS_def read_arrayS_def n)
    next
      case (rep_object a gs hs)
      have cell: "cell_at s a = Some (ObjectCell gs)"
        using rep_object(3) s by (rule extends_cell_at[rotated])
      with w x rep_object Some show ?thesis
        by (simp add: path_mapS_def path_map_def bindS_def readS_def read_arrayS_def throwS_def n)
    qed (use w x Some in \<open>simp_all add: path_mapS_def path_map_def bindS_def readS_def throwS_def n\<close>)
  qed
qed

lemma doc_text: "doc_rep s (text_ref t) (text_lit t)"
  by (auto intro!: doc_rep.intros rep.intros)

text \<open>The argument merger.\<close>

lemma sim_next_is_default:
  assumes "rep_val s0 v j" and "value_size j \<le> fuel"
  shows "sim s0 (=) (next_is_defaultS fuel v) (next_is_default j)"
proof (cases "truthy j")
  case False
  with truthy_rep[OF assms(1)] show ?thesis
    by (simp add: next_is_defaultS_def next_is_default_def sim_return)
next
  case True
  have "sim s0 (=) (bindS (readS (\<lambda>st. get_ref st v ''ast_type''))
                      (\<lambda>t. readS (\<lambda>st. Inr (loosely_differs_ref fuel st t ''arg''))))
                   (bindE (get j ''ast_type'') (\<lambda>t. Inr (loosely_differs t ''arg'')))"
  proof (rule sim_bind[OF sim_get[OF assms]])
    fix t t' assume "val_rel s0 fuel t t'"
    then have "rep_val s0 t t'" "value_size t' \<le> fuel"
      by (simp_all add: val_rel_def)
    then show "sim s0 (=) (readS (\<lambda>st. Inr (loosely_differs_ref fuel st t ''arg'')))
                 (Inr (loosely_differs t' ''arg''))"
      by (intro sim_read) (simp add: loosely_differs_rep)
  qed
  with True truthy_rep[OF assms(1)] show ?thesis
    by (simp add: next_is_defaultS_def next_is_default_def)
qed

lemma sim_walk:
  assumes call: "\<And>k i. sim s0 (doc_rep s0) (path_call_atS print p k i) (path_call_at print' p' k i)"
      and ms: "list_all2 (\<lambda>x j. rep s0 x j \<and> size j \<le> fuel) ms js"
    shows "sim s0 (list_all2 (doc_rep s0)) (walkS fuel print p ak dk ms ca cd)
             (walk print' p' ak dk js ca cd)"
  using ms
proof (induction ms arbitrary: js ca cd rule: induct_list012)
  case 1
  then show ?case by (simp add: sim_return)
next
  case (2 m)
  then obtain j where js: "js = [j]"
    by (auto simp: list_all2_Cons1)
  have none: "sim s0 (=) (next_is_defaultS fuel None) (next_is_default None)"
    by (rule sim_next_is_default) (simp_all add: value_size_def)
  show ?case
    unfolding js walkS.simps walk.simps
    by (intro sim_bind[OF call] sim_bind[OF none] sim_return)
       (auto intro!: doc_concat)
next
  case (3 m nxt rest)
  from 3(3) obtain j nj js' where js: "js = j # nj # js'"
    and nxt: "rep s0 nxt nj" "size nj \<le> fuel"
    and rest: "list_all2 (\<lambda>x j. rep s0 x j \<and> size j \<le> fuel) rest js'"
    by (auto simp: list_all2_Cons1)
  have tail: "list_all2 (\<lambda>x j. rep s0 x j \<and> size j \<le> fuel) (nxt # rest) (nj # js')"
    using nxt rest by simp
  have isd: "sim s0 (=) (next_is_defaultS fuel (Some nxt)) (next_is_default (Some nj))"
    using nxt by (intro sim_next_is_default) (simp_all add: value_size_def)
  show ?case
    unfolding js walkS.simps walk.simps
  proof (intro sim_bind[OF call] sim_bind[OF isd])
    fix a a' and b b' :: bool
    assume a: "doc_rep s0 a a'" and b: "b = b'"
    show "sim s0 (list_all2 (doc_rep s0))
           (if b then bindS (path_call_atS print p dk cd)
                   (\<lambda>d. bindS (walkS fuel print p ak dk rest (ca + 1) (cd + 1))
                      (\<lambda>parts. returnS (RConcat [a, text_ref ''='', d] # parts)))
            else bindS (walkS fuel print p ak dk (nxt # rest) (ca + 1) cd)
                   (\<lambda>parts. returnS (RConcat [a] # parts)))
           (if b' then bindE (path_call_at print' p' dk cd)
                   (\<lambda>d. bindE (walk print' p' ak dk js' (ca + 1) (cd + 1))
                      (\<lambda>parts. Inr (Concat [a', text_lit ''='', d] # parts)))
            else bindE (walk print' p' ak dk (nj # js') (ca + 1) cd)
                   (\<lambda>parts. Inr (Concat [a'] # parts)))"
    proof (cases b')
      case True
      with b show ?thesis
        using a
        by (auto intro!: sim_bind[OF call] sim_bind[OF 3(1)[OF rest]] sim_return
                 doc_concat doc_text)
    next
      case False
      with b show ?thesis
        using a
        by (auto intro!: sim_bind[OF 3(2)[OF tail]] sim_return doc_concat)
    qed
  qed
qed

lemma spread_rep_sized:
  assumes "rep_val s0 v j" and "extends s0 s" and "value_size j \<le> b"
  shows "rel_sum (error_rep s0) (list_all2 (\<lambda>x y. rep s0 x y \<and> size y \<le> b))
           (spread_ref s v) (spread j)"
proof -
  have sized: "list_all2 (\<lambda>x y. rep s0 x y \<and> size y \<le> b) xs ys"
    if "list_all2 (rep s0) xs ys" and "spread j = Inr ys" for xs ys
  proof (rule list.rel_mono_strong[OF that(1)])
    fix x y assume "x \<in> set xs" and y: "y \<in> set ys" and xy: "rep s0 x y"
    have "size y \<le> value_size j"
    proof (cases j)
      case None
      with that(2) show ?thesis by simp
    next
      case (Some z)
      with that(2) y show ?thesis
        using elem_size[of y ys]
        by (cases z) (auto simp: value_size_def)
    qed
    with assms(3) xy show "rep s0 x y \<and> size y \<le> b" by simp
  qed
  from spread_rep[OF assms(1,2)] show ?thesis
    by (cases "spread_ref s v"; cases "spread j") (auto intro: sized)
qed

lemma sim_merge_sorted_sized:
  assumes "list_all2 (\<lambda>x y. rep s0 x y \<and> size y \<le> b) xs js"
  shows "sim s0 (list_all2 (\<lambda>x y. rep s0 x y \<and> size y \<le> b)) (merge_sortedS xs) (sort_by_col_offset js)"
  unfolding sim_def
proof (intro allI impI)
  fix s assume s: "extends s0 s"
  let ?s1 = "s @ [ArrayCell xs]"
  have reps: "list_all2 (rep s0) xs js"
    using assms by (rule list_all2_mono) simp
  have e1: "extends s0 ?s1"
    using s by (auto simp: extends_def)
  have cell: "cell_at ?s1 (length s) = Some (ArrayCell xs)"
    by (simp add: cell_at_def)
  have len: "length xs = length js"
    using assms by (rule list_all2_lengthD)
  show "\<exists>s' r. merge_sortedS xs s = Some (s', r) \<and> extends s s' \<and>
               rel_sum (error_rep s0) (list_all2 (\<lambda>x y. rep s0 x y \<and> size y \<le> b)) r (sort_by_col_offset js)"
  proof (cases "2 \<le> length xs \<and> RNull \<in> set xs")
    case True
    then have "merge_sortedS xs s = Some (?s1, Inl STypeError)"
      by (simp add: merge_sortedS_def bindS_def allocS_def sort_by_col_offsetS_def cell)
    moreover have "sort_by_col_offset js = Inl TypeError"
      using True len null_in_rep[OF reps] by (simp add: sort_by_col_offset_def)
    ultimately show ?thesis by (auto simp: extends_def)
  next
    case False
    let ?sorted = "sort_key (col_offset_ref ?s1) xs"
    let ?s2 = "s @ [ArrayCell ?sorted]"
    have "?s1[length s := ArrayCell ?sorted] = ?s2"
      by simp
    then have "merge_sortedS xs s = Some (?s2, Inr ?sorted)"
      using False
      by (simp add: merge_sortedS_def bindS_def allocS_def sort_by_col_offsetS_def cell
          read_arrayS_def readS_def cell_at_def)
    moreover have "sort_by_col_offset js = Inr (sort_key col_offset js)"
      using False len null_in_rep[OF reps] by (simp add: sort_by_col_offset_def)
    moreover have "list_all2 (\<lambda>x y. rep s0 x y \<and> size y \<le> b) ?sorted (sort_key col_offset js)"
      using assms by (rule sort_key_rel) (simp add: col_offset_rep[OF _ e1])
    ultimately show ?thesis by (auto simp: extends_def)
  qed
qed

lemma printArgumentsS_alt:
  "printArgumentsS fuel print path argsKey defaultsKey =
     bindS (readS (\<lambda>st. get_ref st (getValueS path) argsKey)) (\<lambda>args.
     bindS (readS (\<lambda>st. spread_ref st args)) (\<lambda>as.
     bindS (readS (\<lambda>st. get_ref st (getValueS path) defaultsKey)) (\<lambda>defaults.
     bindS (readS (\<lambda>st. spread_ref st defaults)) (\<lambda>ds.
     bindS (merge_sortedS (as @ ds)) (\<lambda>merged.
       walkS fuel print path argsKey defaultsKey merged 0 0)))))"
  by (simp add: printArgumentsS_def merge_sortedS_def bindS_assoc Let_def)

lemma sim_printArguments:
  assumes p: "path_rep s0 p p'"
      and n: "getValue p' = Some (JObj fs)"
      and fuel: "size (JObj fs) \<le> fuel"
      and cb: "\<And>c c'. path_rep s0 c c' \<Longrightarrow> value_size (getValue c') < value_size (getValue p')
                 \<Longrightarrow> sim s0 (doc_rep s0) (print c) (print' c')"
    shows "sim s0 (list_all2 (doc_rep s0)) (printArgumentsS fuel print p ak dk)
             (printArguments print' p' ak dk)"
proof -
  have nrep: "rep_val s0 (getValueS p) (getValue p')" and nsize: "value_size (getValue p') \<le> fuel"
    using p n fuel by (simp_all add: path_rep_def value_size_def)
  have call: "\<And>k i. sim s0 (doc_rep s0) (path_call_atS print p k i) (path_call_at print' p' k i)"
    using p n cb by (rule sim_path_call_at)
  have spread: "sim s0 (list_all2 (\<lambda>x y. rep s0 x y \<and> size y \<le> fuel))
                  (readS (\<lambda>st. spread_ref st v)) (spread j)"
    if "val_rel s0 fuel v j" for v j
    using that by (intro sim_read spread_rep_sized) (simp_all add: val_rel_def)
  show ?thesis
    unfolding printArgumentsS_alt printArguments_def Let_def
    by (intro sim_bind[OF sim_get[OF nrep nsize]] sim_bind[OF spread]
          sim_bind[OF sim_merge_sorted_sized] sim_walk[OF call])
       (simp_all add: list_all2_appendI)
qed

lemma sim_needsParens:
  assumes "path_rep s0 p p'"
  shows "sim s0 (=) (needsParensS p) (needsParens p')"
proof -
  have "rep_val s0 (getParentNodeS p) (getParentNode p')"
    using assms by (simp add: path_rep_def)
  then show ?thesis
    unfolding needsParensS_def needsParens_def
    by (intro sim_bind[OF sim_get[where b = "value_size (getParentNode p')"]] sim_return)
       (auto simp: val_rel_def)
qed

text \<open>The node printer: every case follows the case of the first embedding.\<close>

lemma sim_strengthen:
  assumes "sim s0 R M m"
  shows "sim s0 (\<lambda>x y. R x y \<and> m = Inr y) M m"
  unfolding sim_def
proof (intro allI impI)
  fix s assume "extends s0 s"
  with assms obtain s' r where run: "M s = Some (s', r)" "extends s s'"
    and rel: "rel_sum (error_rep s0) R r m"
    unfolding sim_def by blast
  from rel have "rel_sum (error_rep s0) (\<lambda>x y. R x y \<and> m = Inr y) r m"
    by cases simp_all
  with run show "\<exists>s' r. M s = Some (s', r) \<and> extends s s' \<and>
                   rel_sum (error_rep s0) (\<lambda>x y. R x y \<and> m = Inr y) r m"
    by blast
qed

lemma sim_bind_eq:
  assumes "sim s0 (=) M m" and "\<And>x. sim s0 S (F x) (f x)"
  shows "sim s0 S (bindS M F) (bindE m f)"
  using assms(1) by (rule sim_bind) (simp add: assms(2))

lemma sim_if_eq:
  assumes "c \<Longrightarrow> sim s0 R A A'" and "\<not> c \<Longrightarrow> sim s0 R B B'"
  shows "sim s0 R (if c then A else B) (if c then A' else B')"
  using assms by simp

lemma sim_if_tag:
  assumes "val_rel s0 b t t'"
      and "t' = Some (JStr x) \<Longrightarrow> sim s0 R A A'"
      and "t' \<noteq> Some (JStr x) \<Longrightarrow> sim s0 R B B'"
    shows "sim s0 R (if t = Some (RStr x) then A else B) (if t' = Some (JStr x) then A' else B')"
  using assms by (simp add: val_rel_def)

lemma sim_if_tag2:
  assumes "val_rel s0 b t t'"
      and "sim s0 R A A'"
      and "sim s0 R B B'"
    shows "sim s0 R (if t = Some (RStr x) \<or> t = Some (RStr y) then A else B)
             (if t' = Some (JStr x) \<or> t' = Some (JStr y) then A' else B')"
  using assms by (simp add: val_rel_def)

lemma sim_bind_if_truthy:
  assumes "val_rel s0 b v j"
      and "sim s0 R A A'" and "sim s0 R B B'"
      and "\<And>x y. R x y \<Longrightarrow> sim s0 S (F x) (f y)"
    shows "sim s0 S (bindS (if truthy_ref v then A else B) F) (bindE (if truthy j then A' else B') f)"
proof -
  have "truthy_ref v = truthy j"
    using assms(1) by (simp add: val_rel_def)
  with assms(2,3) have "sim s0 R (if truthy_ref v then A else B) (if truthy j then A' else B')"
    by simp
  then show ?thesis by (rule sim_bind) (rule assms(4))
qed

lemma sim_bind_if_greater_zero:
  assumes "val_rel s0 b v j"
      and "sim s0 R A A'" and "sim s0 R B B'"
      and "\<And>x y. R x y \<Longrightarrow> sim s0 S (F x) (f y)"
    shows "sim s0 S (bindS (if greater_zero_ref v then A else B) F)
             (bindE (if greater_zero j then A' else B') f)"
proof -
  have "greater_zero_ref v = greater_zero j"
    using assms(1) by (simp add: val_rel_def)
  with assms(2,3) have "sim s0 R (if greater_zero_ref v then A else B) (if greater_zero j then A' else B')"
    by simp
  then show ?thesis by (rule sim_bind) (rule assms(4))
qed

lemma sim_get_val:
  "val_rel s0 b v j \<Longrightarrow> sim s0 (val_rel s0 b) (readS (\<lambda>st. get_ref st v k)) (get j k)"
  by (rule sim_get) (simp_all add: val_rel_def)

lemma sim_to_string:
  assumes "val_rel s0 fuel v j"
  shows "sim s0 (doc_rep s0) (readS (\<lambda>st. Inr (text_ref (to_string_val fuel st v))))
           (Inr (text_lit (to_string j)))"
proof (rule sim_read)
  fix s assume "extends s0 s"
  with assms have "to_string_val fuel s v = to_string j"
    by (intro to_string_val_rep) (simp_all add: val_rel_def)
  then show "rel_sum (error_rep s0) (doc_rep s0) (Inr (text_ref (to_string_val fuel s v)))
               (Inr (text_lit (to_string j)))"
    by (simp add: doc_text)
qed

lemma sim_to_string_quoted:
  assumes "val_rel s0 fuel v j"
  shows "sim s0 (doc_rep s0) (readS (\<lambda>st. Inr (text_ref ([CHR 0x22] @ to_string_val fuel st v @ [CHR 0x22]))))
           (Inr (text_lit ([CHR 0x22] @ to_string j @ [CHR 0x22])))"
proof (rule sim_read)
  fix s assume "extends s0 s"
  with assms have "to_string_val fuel s v = to_string j"
    by (intro to_string_val_rep) (simp_all add: val_rel_def)
  then show "rel_sum (error_rep s0) (doc_rep s0)
               (Inr (text_ref ([CHR 0x22] @ to_string_val fuel s v @ [CHR 0x22])))
               (Inr (text_lit ([CHR 0x22] @ to_string j @ [CHR 0x22])))"
    using doc_text[of s0 "[CHR 0x22] @ to_string j @ [CHR 0x22]"] by simp
qed

lemma sim_throw_unsupported:
  "val_rel s0 b t t' \<Longrightarrow> sim s0 R (throwS (SUnsupportedNodeKind t)) (Inl (UnsupportedNodeKind t'))"
  by (rule sim_throw) (simp add: val_rel_def)

lemma doc_lit_val: "val_rel s0 b v j \<Longrightarrow> doc_rep s0 (RLit v) (Lit j)"
  by (rule doc_lit) (simp add: val_rel_def)

lemma sim_genericPrint:
  assumes p: "path_rep s0 p p'"
      and fuel: "value_size (getValue p') \<le> fuel"
      and cb: "\<And>c c'. path_rep s0 c c' \<Longrightarrow> value_size (getValue c') < value_size (getValue p')
                 \<Longrightarrow> sim s0 (doc_rep s0) (print c) (print' c')"
    shows "sim s0 (doc_rep s0) (genericPrintS fuel print p) (genericPrint print' p')"
proof -
  have nrep: "rep_val s0 (getValueS p) (getValue p')"
    using p by (simp add: path_rep_def)
  note tr = truthy_rep[OF nrep] and st = is_string_rep[OF nrep]
  have getn: "sim s0 (val_rel s0 fuel) (readS (\<lambda>st. get_ref st (getValueS p) k)) (get (getValue p') k)" for k
    using nrep fuel by (rule sim_get)
  have chain: "sim s0 (doc_rep s0)
     (bindS (readS (\<lambda>st. get_ref st (getValueS p) ''ast_type'')) F)
     (bindE (get (getValue p') ''ast_type'') f)"
    if node: "\<And>t t' fs. val_rel s0 fuel t t' \<Longrightarrow> getValue p' = Some (JObj fs) \<Longrightarrow>
                 sim s0 (doc_rep s0) (F t) (f t')"
    and other: "\<And>t t'. val_rel s0 fuel t t' \<Longrightarrow> \<forall>x. t' \<noteq> Some (JStr x) \<Longrightarrow>
                 sim s0 (doc_rep s0) (F t) (f t')"
    for F f
  proof (rule sim_bind[OF sim_strengthen[OF getn]])
    fix t t' assume tt: "val_rel s0 fuel t t' \<and> get (getValue p') ''ast_type'' = Inr t'"
    show "sim s0 (doc_rep s0) (F t) (f t')"
    proof (cases "\<exists>x. t' = Some (JStr x)")
      case True
      then obtain x where "t' = Some (JStr x)" ..
      with tt obtain fs where "getValue p' = Some (JObj fs)"
        by (auto elim: node_of_tag)
      with tt show ?thesis by (auto intro: node)
    next
      case False
      with tt show ?thesis by (auto intro: other)
    qed
  qed
  show ?thesis
    unfolding genericPrintS_def genericPrint_def Let_def tr st
    apply (rule sim_if_eq)
     apply (intro sim_return doc_text)
    apply (rule sim_if_eq)
     apply (intro sim_return doc_lit nrep)
    apply (rule chain)
    subgoal premises prems for t t' fs
    proof -
      note tt = prems(3) and n = prems(4)
      have size: "size (JObj fs) \<le> fuel"
        using fuel n by (simp add: value_size_def)
      note call = sim_path_call[OF p n cb]
      note pmap = sim_path_map[OF p n cb]
      note pargs = sim_printArguments[OF p n size cb]
      note np = sim_needsParens[OF p]
      show ?thesis
        by (intro sim_if_tag[OF tt] sim_if_tag2[OF tt] sim_if_eq
              sim_bind[OF call] sim_bind[OF pmap] sim_bind[OF pargs] sim_bind_eq[OF np]
              sim_bind[OF getn] sim_bind[OF sim_get_val[where b = fuel]]
              sim_bind_if_truthy[where R = "list_all2 (doc_rep s0)"]
              sim_bind_if_greater_zero[where R = "list_all2 (doc_rep s0)"]
              sim_to_string sim_to_string_quoted sim_throw_unsupported[OF tt] call
              sim_return doc_text doc_lit_val doc_concat doc_group doc_indent doc_line doc_softline
              doc_hardline join_rep map_index_rep doc_at_rep list.rel_intros list_all2_appendI)
    qed
    subgoal premises prems for t t'
    proof -
      note tt = prems(3) and none = prems(4)
      have "\<forall>x. t \<noteq> Some (RStr x)"
        using tt none by (simp add: val_rel_def)
      with none tt show ?thesis
        by (simp add: sim_throw_unsupported)
    qed
    done
qed

text \<open>The traversal, by induction on the bound: a bound above the size of the tree is
  enough for the run to return.\<close>

lemma sim_printS:
  "path_rep s0 p p' \<Longrightarrow> value_size (getValue p') < fuel \<Longrightarrow>
   sim s0 (doc_rep s0) (printS fuel p) (printAst p')"
proof (induction fuel arbitrary: p p')
  case 0
  then show ?case by simp
next
  case (Suc fuel)
  have "sim s0 (doc_rep s0) (genericPrintS fuel (printS fuel) p) (genericPrint printAst p')"
  proof (rule sim_genericPrint[OF Suc.prems(1)])
    show "value_size (getValue p') \<le> fuel"
      using Suc.prems(2) by simp
  next
    fix c c' assume "path_rep s0 c c'" and "value_size (getValue c') < value_size (getValue p')"
    with Suc.prems(2) show "sim s0 (doc_rep s0) (printS fuel c) (printAst c')"
      by (intro Suc.IH) simp_all
  qed
  then show ?case
    by (subst printAst.simps) simp
qed

text \<open>A value over the store represents one tree only, and a fragment over the store
  one fragment only.\<close>

lemma list_all2_functional:
  assumes "list_all2 (\<lambda>x y. R x y \<and> (\<forall>z. R x z \<longrightarrow> y = z)) xs ys"
      and "list_all2 R xs zs"
    shows "ys = zs"
  using assms
proof (induction arbitrary: zs rule: list_all2_induct)
  case Nil
  then show ?case by simp
next
  case (Cons x xs y ys)
  then show ?case by (auto simp: list_all2_Cons1)
qed

lemma rep_functional: "rep s x j \<Longrightarrow> rep s x j' \<Longrightarrow> j = j'"
proof (induction arbitrary: j' rule: rep.induct)
  case (rep_array a xs js)
  from rep_array.prems rep_array.hyps obtain js' where j': "j' = JArr js'"
    and all: "list_all2 (rep s) xs js'"
    by cases auto
  from list_all2_functional[OF rep_array.IH all] j' show ?case by simp
next
  case (rep_object a fs gs)
  from rep_object.prems rep_object.hyps obtain gs' where j': "j' = JObj gs'"
    and all: "list_all2 (\<lambda>f g. fst f = fst g \<and> rep s (snd f) (snd g)) fs gs'"
    by cases auto
  have "list_all2 (\<lambda>f g. (fst f = fst g \<and> rep s (snd f) (snd g)) \<and>
                  (\<forall>h. fst f = fst h \<and> rep s (snd f) (snd h) \<longrightarrow> g = h)) fs gs"
    using rep_object.IH by (rule list.rel_mono_strong) (auto simp: prod_eq_iff)
  from list_all2_functional[OF this all] j' show ?case by simp
qed (auto elim: rep.cases)

lemma rep_val_functional: "rep_val s v j \<Longrightarrow> rep_val s v j' \<Longrightarrow> j = j'"
  by (cases v; cases j; cases j') (auto dest: rep_functional)

inductive_cases doc_rep_litE: "doc_rep s (RLit v) e"
inductive_cases doc_rep_concatE: "doc_rep s (RConcat ds) e"
inductive_cases doc_rep_groupE: "doc_rep s (RGroup d) e"
inductive_cases doc_rep_indentE: "doc_rep s (RIndent d) e"
inductive_cases doc_rep_lineE: "doc_rep s RLine e"
inductive_cases doc_rep_softlineE: "doc_rep s RSoftline e"
inductive_cases doc_rep_hardlineE: "doc_rep s RHardline e"

lemma doc_rep_functional: "doc_rep s d e \<Longrightarrow> doc_rep s d e' \<Longrightarrow> e = e'"
proof (induction arbitrary: e' rule: doc_rep.induct)
  case (doc_lit v j)
  then show ?case by (auto elim!: doc_rep_litE dest: rep_val_functional)
next
  case (doc_concat ds es)
  from doc_concat.prems obtain es' where e': "e' = Concat es'" and all: "list_all2 (doc_rep s) ds es'"
    by (auto elim!: doc_rep_concatE)
  from list_all2_functional[OF doc_concat.IH all] e' show ?case by simp
next
  case (doc_group d e)
  from doc_group.prems obtain e2 where "e' = Group e2" and "doc_rep s d e2"
    by (rule doc_rep_groupE)
  with doc_group.IH[of e2] show ?case by simp
next
  case (doc_indent d e)
  from doc_indent.prems obtain e2 where "e' = Indent e2" and "doc_rep s d e2"
    by (rule doc_rep_indentE)
  with doc_indent.IH[of e2] show ?case by simp
next
  case doc_line
  then show ?case by (rule doc_rep_lineE) simp
next
  case doc_softline
  then show ?case by (rule doc_rep_softlineE) simp
next
  case doc_hardline
  then show ?case by (rule doc_rep_hardlineE) simp
qed

lemma extends_take: "extends s s' \<Longrightarrow> take (length s) s' = s"
  by (auto simp: extends_def)

lemma split_lines_store_rep:
  "rep split_lines_store (RRef 8) arguments_split_lines"
  unfolding arguments_split_lines_def arguments_node_def arg_node_def num_node_def
  by (rule rep_object[where fs = "[(''ast_type'', RStr ''arguments''), (''args'', RRef 4), (''vararg'', RNull),
                  (''kwonlyargs'', RRef 5), (''kw_defaults'', RRef 6), (''kwarg'', RNull),
                  (''defaults'', RRef 7)]"])
     (auto simp: split_lines_store_def cell_at_def intro!: rep.intros)

lemma split_lines_size: "value_size (Some arguments_split_lines) < 100"
  by (simp add: value_size_def arguments_split_lines_def arguments_node_def arg_node_def num_node_def)

text \<open>
  C8. Printing is deterministic and referentially transparent, and never writes to the
  tree. Let the node \<open>n\<close> represent the tree \<open>j\<close> in the store \<open>s\<close>, and let \<open>m\<close> be a node
  that represents the same tree: \<open>n\<close> again, or a copy of it elsewhere in the store.
  Let their parents \<open>a\<close> and \<open>b\<close> represent trees on which, if \<open>j\<close> is a Tuple, the test
  \<open>needsParens\<close> agrees. Then, with a bound on the nesting of calls above the size of
  \<open>j\<close>, printing \<open>n\<close> under \<open>a\<close> returns, and printing \<open>m\<close> under \<open>b\<close> in the store that the
  first call left returns too. Each call leaves every cell that was in the store when
  it started as it was (the store it leaves begins with the store it started in: the
  only cells written are the merged arrays of \<open>printArguments\<close>, which are new). The two
  results represent one and the same result of the first embedding, the value of the
  function \<open>printAst\<close> at the tree \<open>j\<close> under the parent of the first call: they are
  structurally identical (\<open>doc_rep_functional\<close>: a fragment over the store represents one
  fragment only), and they are a function of the subtree, with the parent counting
  only through \<open>needsParens\<close>.
\<close>

theorem printS_referentially_transparent:
  assumes "rep_val s n j" and "rep_val s a pj"
      and "rep_val s m j" and "rep_val s b qj"
      and "get j ''ast_type'' = Inr (Some (JStr ''Tuple'')) \<longrightarrow>
           needsParens (Path j pj) = needsParens (Path j qj)"
      and "value_size j < fuel"
    shows "\<exists>s1 r1 s2 r2.
             printS fuel (RPath n a) s = Some (s1, r1) \<and> take (length s) s1 = s \<and>
             printS fuel (RPath m b) s1 = Some (s2, r2) \<and> take (length s1) s2 = s1 \<and>
             result_rep s r1 (printAst (Path j pj)) \<and> result_rep s r2 (printAst (Path j pj))"
proof -
  have same: "printAst (Path j qj) = printAst (Path j pj)"
    using assms(5) by (intro printAst_pure) simp_all
  have first: "sim s (doc_rep s) (printS fuel (RPath n a)) (printAst (Path j pj))"
    using assms(1,2,6) by (intro sim_printS) (simp_all add: path_rep_def)
  have second: "sim s (doc_rep s) (printS fuel (RPath m b)) (printAst (Path j pj))"
    using assms(3,4,6) sim_printS[of s "RPath m b" "Path j qj" fuel]
    by (simp add: path_rep_def same)
  from first obtain s1 r1 where 1: "printS fuel (RPath n a) s = Some (s1, r1)" "extends s s1"
    "result_rep s r1 (printAst (Path j pj))"
    unfolding sim_def result_rep_def using extends_refl by blast
  from second 1(2) obtain s2 r2 where 2: "printS fuel (RPath m b) s1 = Some (s2, r2)" "extends s1 s2"
    "result_rep s r2 (printAst (Path j pj))"
    unfolding sim_def result_rep_def by blast
  from 1 2 show ?thesis
    by (blast dest: extends_take)
qed

theorem printS_referentially_transparent_witness:
  "rep_val split_lines_store (Some (RRef 8)) (Some arguments_split_lines) \<and>
   value_size (Some arguments_split_lines) < 100 \<and>
   (\<exists>s1 r1 s2 r2.
      printS 100 (RPath (Some (RRef 8)) None) split_lines_store = Some (s1, r1) \<and>
      take (length split_lines_store) s1 = split_lines_store \<and>
      printS 100 (RPath (Some (RRef 8)) None) s1 = Some (s2, r2) \<and>
      take (length s1) s2 = s1 \<and>
      result_rep split_lines_store r1 (printAst (Path (Some arguments_split_lines) None)) \<and>
      result_rep split_lines_store r2 (printAst (Path (Some arguments_split_lines) None)))"
  using printS_referentially_transparent[where s = split_lines_store and n = "Some (RRef 8)"
          and j = "Some arguments_split_lines" and a = None and pj = None
          and m = "Some (RRef 8)" and b = None and qj = None and fuel = 100]
        split_lines_store_rep split_lines_size
  by simp

text \<open>The run on that store: the call adds one cell, the merged array in the order of
  the column offsets (\<open>b\<close>, the default, \<open>a\<close>), and the array \<open>args\<close> in cell 4 keeps its
  order.\<close>

lemma printS_split_lines:
  "printS 100 (RPath (Some (RRef 8)) None) split_lines_store =
     Some (split_lines_store @ [ArrayCell [RRef 1, RRef 3, RRef 0]],
           Inr (RConcat [RConcat [text_ref ''a'', text_ref ''='', text_ref ''1''],
                RConcat [text_ref '', '', RSoftline], RConcat [text_ref ''b'']]))"
  by code_simp

subsection \<open>The argument merger\<close>

lemma pairs_in_order_simps [simp]:
  "pairs_in_order [] ys = []"
  "pairs_in_order xs [] = []"
  "pairs_in_order (x # xs) (y # ys) = x # y # pairs_in_order xs ys"
  by (simp_all add: pairs_in_order_def)

lemma mset_pairs_in_order:
  "length xs = length ys \<Longrightarrow> mset (pairs_in_order xs ys) = mset xs + mset ys"
  by (induction xs ys rule: list_induct2) simp_all

lemma mset_source_order:
  assumes "length ds \<le> length as"
  shows "mset (source_order as ds) = mset (as @ ds)"
proof -
  have "length (drop (length as - length ds) as) = length ds"
    using assms by simp
  then have "mset (source_order as ds) =
             mset (take (length as - length ds) as) + mset (drop (length as - length ds) as) + mset ds"
    by (simp add: source_order_def mset_pairs_in_order)
  also have "mset (take (length as - length ds) as) + mset (drop (length as - length ds) as) = mset as"
    by (metis append_take_drop_id mset_append)
  finally show ?thesis by simp
qed

lemma col_offset_of_get:
  "get (Some m) ''col_offset'' = Inr (Some (JNum c)) \<Longrightarrow> col_offset m = c"
  by (cases m) (simp_all split: if_splits)

text \<open>When the offsets strictly increase along the source order, the sort of the merged
  list restores the source order.\<close>

lemma sort_source_order:
  assumes len: "length ds \<le> length as"
      and offs: "map (\<lambda>m. get (Some m) ''col_offset'') (source_order as ds) = map (\<lambda>c. Inr (Some (JNum c))) cs"
      and inc: "sorted_wrt (<) cs"
    shows "sort_by_col_offset (as @ ds) = Inr (source_order as ds)"
proof -
  let ?so = "source_order as ds"
  have set_eq: "set (as @ ds) = set ?so"
    using mset_source_order[OF len] by (metis set_mset_mset)
  have lencs: "length cs = length ?so"
    using offs by (metis length_map)
  have nth_off: "get (Some (?so ! i)) ''col_offset'' = Inr (Some (JNum (cs ! i)))" if "i < length ?so" for i
    using that lencs arg_cong[OF offs, of "\<lambda>l. l ! i"] by simp
  have keys: "map col_offset ?so = cs"
    by (rule nth_equalityI) (simp_all add: lencs col_offset_of_get[OF nth_off])
  have no_null: "JNull \<notin> set (as @ ds)"
  proof
    assume "JNull \<in> set (as @ ds)"
    then obtain i where "i < length ?so" "?so ! i = JNull"
      unfolding set_eq by (auto simp: in_set_conv_nth)
    with nth_off[of i] show False by simp
  qed
  have "distinct (map col_offset ?so)"
    unfolding keys using inc by (simp add: strict_sorted_iff)
  then have inj: "inj_on col_offset (set (as @ ds))"
    unfolding set_eq by (simp add: distinct_map)
  have "sorted (map col_offset ?so)"
    unfolding keys using inc by (simp add: strict_sorted_iff)
  with mset_source_order[OF len] inj have "sort_key col_offset (as @ ds) = ?so"
    by (intro sort_key_inj_key_eq) simp_all
  with no_null show ?thesis
    by (simp add: sort_by_col_offset_def)
qed

lemma next_is_default_arg:
  "get (Some a) ''ast_type'' = Inr (Some (JStr ''arg'')) \<Longrightarrow> next_is_default (Some a) = Inr False"
  by (erule node_of_tag) (simp add: next_is_default_def)

lemma next_is_default_other:
  "get (Some d) ''ast_type'' = Inr (Some (JStr t)) \<Longrightarrow> t \<noteq> ''arg'' \<Longrightarrow>
   next_is_default (Some d) = Inr True"
  by (erule node_of_tag) (simp add: next_is_default_def)

lemma bindE_return [simp]: "bindE m Inr = m"
  by (cases m) simp_all

text \<open>The walk over parameters that are each followed by a default.\<close>

lemma walk_pairs:
  assumes "length xs = length ys"
      and "\<forall>y\<in>set ys. next_is_default (Some y) = Inr True"
      and "\<forall>i<length xs. path_call_at print p ak (ca + i) = Inr (fa (ca + i))"
      and "\<forall>i<length xs. path_call_at print p dk (cd + i) = Inr (fd (cd + i))"
    shows "walk print p ak dk (pairs_in_order xs ys) ca cd =
           Inr (map (\<lambda>i. Concat [fa (ca + i), text_lit ''='', fd (cd + i)]) [0..<length xs])"
  using assms
proof (induction xs ys arbitrary: ca cd rule: list_induct2)
  case Nil
  show ?case by simp
next
  case (Cons x xs y ys)
  have a: "path_call_at print p ak ca = Inr (fa ca)"
    using Cons.prems(2)[rule_format, of 0] by simp
  have d: "path_call_at print p dk cd = Inr (fd cd)"
    using Cons.prems(3)[rule_format, of 0] by simp
  have y: "next_is_default (Some y) = Inr True"
    using Cons.prems(1) by simp
  have rest: "walk print p ak dk (pairs_in_order xs ys) (Suc ca) (Suc cd) =
        Inr (map (\<lambda>i. Concat [fa (Suc ca + i), text_lit ''='', fd (Suc cd + i)]) [0..<length xs])"
  proof (rule Cons.IH)
    show "\<forall>y\<in>set ys. next_is_default (Some y) = Inr True"
      using Cons.prems(1) by simp
    show "\<forall>i<length xs. path_call_at print p ak (Suc ca + i) = Inr (fa (Suc ca + i))"
      using Cons.prems(2)[rule_format, of "Suc i" for i] by simp
    show "\<forall>i<length xs. path_call_at print p dk (Suc cd + i) = Inr (fd (Suc cd + i))"
      using Cons.prems(3)[rule_format, of "Suc i" for i] by simp
  qed
  show ?case
    by (simp add: a d y rest map_upt_Suc del: upt_Suc)
qed

text \<open>The walk over parameters that are each followed by another parameter, or by
  nothing.\<close>

lemma walk_params:
  assumes "\<forall>x\<in>set pre. next_is_default (Some x) = Inr False"
      and "rest = [] \<or> next_is_default (Some (hd rest)) = Inr False"
      and "\<forall>i<length pre. path_call_at print p ak (ca + i) = Inr (fa (ca + i))"
    shows "walk print p ak dk (pre @ rest) ca cd =
           bindE (walk print p ak dk rest (ca + length pre) cd)
             (\<lambda>parts. Inr (map (\<lambda>i. Concat [fa (ca + i)]) [0..<length pre] @ parts))"
  using assms
proof (induction pre arbitrary: ca)
  case Nil
  show ?case by simp
next
  case (Cons x pre)
  have a: "path_call_at print p ak ca = Inr (fa ca)"
    using Cons.prems(3)[rule_format, of 0] by simp
  have params: "\<forall>x\<in>set pre. next_is_default (Some x) = Inr False"
    using Cons.prems(1) by simp
  have IH: "walk print p ak dk (pre @ rest) (Suc ca) cd =
           bindE (walk print p ak dk rest (Suc ca + length pre) cd)
             (\<lambda>parts. Inr (map (\<lambda>i. Concat [fa (Suc ca + i)]) [0..<length pre] @ parts))"
  proof (rule Cons.IH)
    show "\<forall>x\<in>set pre. next_is_default (Some x) = Inr False"
      by (rule params)
    show "rest = [] \<or> next_is_default (Some (hd rest)) = Inr False"
      by (rule Cons.prems(2))
    show "\<forall>i<length pre. path_call_at print p ak (Suc ca + i) = Inr (fa (Suc ca + i))"
      using Cons.prems(3)[rule_format, of "Suc i" for i] by simp
  qed
  show ?case
  proof (cases "pre @ rest")
    assume "pre @ rest = []"
    then show ?thesis
      by (simp add: a next_is_default_def)
  next
    fix nxt tl
    assume following: "pre @ rest = nxt # tl"
    have "next_is_default (Some nxt) = Inr False"
    proof (cases pre)
      assume "pre = []"
      with following Cons.prems(2) show ?thesis by auto
    next
      fix y ys
      assume "pre = y # ys"
      with following params show ?thesis by auto
    qed
    then have "walk print p ak dk (x # pre @ rest) ca cd =
        bindE (walk print p ak dk (pre @ rest) (Suc ca) cd) (\<lambda>parts. Inr (Concat [fa ca] # parts))"
      unfolding following by (simp add: a)
    then show ?thesis
      unfolding IH
      by (cases "walk print p ak dk rest (Suc ca + length pre) cd")
         (simp_all add: map_upt_Suc del: upt_Suc)
  qed
qed

lemma path_call_at_element:
  assumes "get n k = Inr (Some (JArr xs))"
      and "list_all2 (\<lambda>x f. print (Path (Some x) n) = Inr f) xs fs"
      and "i < length xs"
    shows "path_call_at print (Path n parent) k i = Inr (fs ! i)"
  using list_all2_nthD[OF assms(2,3)] assms(1,3) by (simp add: path_call_at_def)

lemma fragments_by_index:
  assumes "m + k = length fas" and "k = length fds"
  shows "map (\<lambda>i. Concat [fas ! i]) [0..<m] @
         map (\<lambda>i. Concat [fas ! (m + i), text_lit ''='', fds ! i]) [0..<k] =
         map (\<lambda>a. Concat [a]) (take m fas) @
         map (\<lambda>(a, d). Concat [a, text_lit ''='', d]) (zip (drop m fas) fds)"
proof -
  have "map (\<lambda>i. Concat [fas ! i]) [0..<m] = map (\<lambda>a. Concat [a]) (take m fas)"
    using assms by (intro nth_equalityI) simp_all
  moreover have "map (\<lambda>i. Concat [fas ! (m + i), text_lit ''='', fds ! i]) [0..<k] =
                 map (\<lambda>(a, d). Concat [a, text_lit ''='', d]) (zip (drop m fas) fds)"
    using assms by (intro nth_equalityI) simp_all
  ultimately show ?thesis by simp
qed

text \<open>
  Where the merger is right. Take a parameter list with N parameters \<open>as\<close>, all \<open>arg\<close>
  nodes, of which the trailing K carry the defaults \<open>ds\<close>, nodes of other kinds, and
  let the column offsets strictly increase along the order of the source text (as they
  do when the list is written on one line). Then the merger returns exactly N fragments
  in the order of the parameters: the first N - K are the fragment of the parameter alone,
  and the last K are the fragment of the parameter, \<open>=\<close> and the fragment of that
  parameter's own default. (\<open>fas\<close> and \<open>fds\<close> are what the callback returns for the
  parameters and the defaults.)
\<close>

lemma printArguments_in_source_order:
  assumes "get n argsKey = Inr (Some (JArr as))"
      and "get n defaultsKey = Inr (Some (JArr ds))"
      and "length ds \<le> length as"
      and "\<forall>a\<in>set as. get (Some a) ''ast_type'' = Inr (Some (JStr ''arg''))"
      and "\<forall>d\<in>set ds. \<exists>t. get (Some d) ''ast_type'' = Inr (Some (JStr t)) \<and> t \<noteq> ''arg''"
      and "map (\<lambda>m. get (Some m) ''col_offset'') (source_order as ds) = map (\<lambda>c. Inr (Some (JNum c))) cs"
      and "sorted_wrt (<) cs"
      and "list_all2 (\<lambda>a f. print (Path (Some a) n) = Inr f) as fas"
      and "list_all2 (\<lambda>d f. print (Path (Some d) n) = Inr f) ds fds"
    shows "printArguments print (Path n parent) argsKey defaultsKey =
           Inr (map (\<lambda>a. Concat [a]) (take (length as - length ds) fas) @
                map (\<lambda>(a, d). Concat [a, text_lit ''='', d])
                    (zip (drop (length as - length ds) fas) fds))"
proof -
  define m where "m = length as - length ds"
  define pre where "pre = take m as"
  define post where "post = drop m as"
  let ?p = "Path n parent"
  have lens: "length fas = length as" "length fds = length ds"
    using assms(8,9) by (simp_all add: list_all2_lengthD)
  have m: "m + length ds = length as" "length pre = m" "length post = length ds"
    using assms(3) by (simp_all add: m_def pre_def post_def)
  have merge: "sort_by_col_offset (as @ ds) = Inr (pre @ pairs_in_order post ds)"
    using sort_source_order[OF assms(3,6,7)] by (simp add: source_order_def m_def pre_def post_def)
  have args: "\<forall>x\<in>set as. next_is_default (Some x) = Inr False"
    using assms(4) by (auto intro: next_is_default_arg)
  have defaults: "\<forall>y\<in>set ds. next_is_default (Some y) = Inr True"
    using assms(5) by (auto intro: next_is_default_other)
  have call_arg: "path_call_at print ?p argsKey i = Inr (fas ! i)" if "i < length as" for i
    using assms(1,8) that by (rule path_call_at_element)
  have call_default: "path_call_at print ?p defaultsKey i = Inr (fds ! i)" if "i < length ds" for i
    using assms(2,9) that by (rule path_call_at_element)
  have paired: "walk print ?p argsKey defaultsKey (pairs_in_order post ds) m 0 =
        Inr (map (\<lambda>i. Concat [fas ! (m + i), text_lit ''='', fds ! (0 + i)]) [0..<length post])"
  proof (rule walk_pairs)
    show "length post = length ds" by (rule m)
    show "\<forall>y\<in>set ds. next_is_default (Some y) = Inr True" by (rule defaults)
    show "\<forall>i<length post. path_call_at print ?p argsKey (m + i) = Inr (fas ! (m + i))"
      using call_arg m by simp
    show "\<forall>i<length post. path_call_at print ?p defaultsKey (0 + i) = Inr (fds ! (0 + i))"
      using call_default m by simp
  qed
  have head: "pairs_in_order post ds = [] \<or>
              next_is_default (Some (hd (pairs_in_order post ds))) = Inr False"
  proof (cases ds)
    case Nil
    then show ?thesis by simp
  next
    case (Cons d ds')
    with m(3) obtain a as' where split: "post = a # as'"
      by (cases post) simp_all
    then have "a \<in> set as"
      unfolding post_def by (metis in_set_dropD list.set_intros(1))
    with args split Cons show ?thesis by simp
  qed
  have leading: "\<forall>x\<in>set pre. next_is_default (Some x) = Inr False"
    using args unfolding pre_def by (auto dest: in_set_takeD)
  have call_leading: "\<forall>i<length pre. path_call_at print ?p argsKey (0 + i) = Inr (fas ! (0 + i))"
    using call_arg m by simp
  have "walk print ?p argsKey defaultsKey (pre @ pairs_in_order post ds) 0 0 =
        bindE (walk print ?p argsKey defaultsKey (pairs_in_order post ds) (0 + length pre) 0)
          (\<lambda>parts. Inr (map (\<lambda>i. Concat [fas ! (0 + i)]) [0..<length pre] @ parts))"
    using leading head call_leading by (rule walk_params)
  then have "walk print ?p argsKey defaultsKey (pre @ pairs_in_order post ds) 0 0 =
        Inr (map (\<lambda>i. Concat [fas ! i]) [0..<m] @
             map (\<lambda>i. Concat [fas ! (m + i), text_lit ''='', fds ! i]) [0..<length ds])"
    using paired by (simp add: m)
  also have "\<dots> = Inr (map (\<lambda>a. Concat [a]) (take m fas) @
                map (\<lambda>(a, d). Concat [a, text_lit ''='', d]) (zip (drop m fas) fds))"
  proof -
    have "m + length ds = length fas" and "length ds = length fds"
      using lens m by simp_all
    then show ?thesis
      by (simp only: fragments_by_index)
  qed
  finally show ?thesis
    using assms(1,2) merge by (simp add: printArguments_def m_def)
qed

lemma printArguments_one_line:
  "printArguments printAst (Path (Some arguments_one_line) None) ''args'' ''defaults'' =
     Inr [Concat [text_lit ''a''],
          Concat [text_lit ''b'', text_lit ''='', text_lit ''1''],
          Concat [text_lit ''c'', text_lit ''='', text_lit ''2'']]"
proof -
  let ?n = "Some arguments_one_line"
  let ?as = "[arg_node ''a'' 6, arg_node ''b'' 9, arg_node ''c'' 14]"
  let ?ds = "[num_node 1 11, num_node 2 16]"
  have args: "get ?n ''args'' = Inr (Some (JArr ?as))"
    by (simp add: arguments_one_line_def arguments_node_def)
  have defaults: "get ?n ''defaults'' = Inr (Some (JArr ?ds))"
    by (simp add: arguments_one_line_def arguments_node_def)
  have len: "length ?ds \<le> length ?as"
    by simp
  have arg_tags: "\<forall>a\<in>set ?as. get (Some a) ''ast_type'' = Inr (Some (JStr ''arg''))"
    by (simp add: arg_node_def)
  have default_tags: "\<forall>d\<in>set ?ds. \<exists>t. get (Some d) ''ast_type'' = Inr (Some (JStr t)) \<and> t \<noteq> ''arg''"
    by (simp add: num_node_def)
  have offsets: "map (\<lambda>m. get (Some m) ''col_offset'') (source_order ?as ?ds) =
                 map (\<lambda>c. Inr (Some (JNum c))) [6, 9, 11, 14, 16]"
    by (simp add: source_order_def arg_node_def num_node_def)
  have increasing: "sorted_wrt (<) [6, 9, 11, 14, 16 :: int]"
    by simp
  have fas: "list_all2 (\<lambda>a f. printAst (Path (Some a) ?n) = Inr f) ?as
               [text_lit ''a'', text_lit ''b'', text_lit ''c'']"
    by code_simp
  have fds: "list_all2 (\<lambda>d f. printAst (Path (Some d) ?n) = Inr f) ?ds
               [text_lit ''1'', text_lit ''2'']"
    by code_simp
  show ?thesis
    using printArguments_in_source_order[OF args defaults len arg_tags default_tags offsets
        increasing fas fds, of None]
    by simp
qed

text \<open>
  C1. The claim is that for every parameter list with N parameters, the trailing K with
  defaults, the merger returns exactly N fragments in the order of the parameters, the
  last K with \<open>=\<close> and the parameter's own default, the first N - K without, and that no
  parameter without a default gets the default of a later one. The code pairs by column
  offset alone, and the offset restarts on every line, so on a parameter list broken over
  lines it does otherwise.

  In the first list, \<open>b\<close> (column 4) and its default \<open>1\<close> (column 6) sort before \<open>a\<close>
  (column 8). The loop never looks at the element it stands on: it prints the parameter
  under its own cursor, \<open>a\<close>, sees a default next, and gives \<open>a\<close> the default of \<open>b\<close>.
  The fragments are \<open>a=1\<close> and \<open>b\<close>, not \<open>a\<close> and \<open>b=1\<close>.

  In the second list, one parameter on each line, the three parameters (column 4) sort
  before the two defaults (column 6). The loop prints \<open>a\<close>, \<open>b\<close>, then \<open>c\<close> with the
  default of \<open>b\<close>, steps over that default, and still stands on an element of the merged
  list: it prints a fourth fragment, for the parameter of index 3, which does not exist
  and prints as the empty string. Three parameters give the four fragments \<open>a\<close>, \<open>b\<close>,
  \<open>c=1\<close> and the empty one, and the default \<open>2\<close> is lost.
\<close>

theorem printArguments_split_lines:
  "printArguments printAst (Path (Some arguments_split_lines) None) ''args'' ''defaults'' =
     Inr [Concat [text_lit ''a'', text_lit ''='', text_lit ''1''], Concat [text_lit ''b'']]
   \<and> printArguments printAst (Path (Some arguments_one_per_line) None) ''args'' ''defaults'' =
     Inr [Concat [text_lit ''a''], Concat [text_lit ''b''],
          Concat [text_lit ''c'', text_lit ''='', text_lit ''1''], Concat [text_lit []]]"
  by code_simp

subsection \<open>The groups of a parameter list\<close>

text \<open>
  C2. The claim has the bare \<open>*\<close> only when there are keyword-only parameters and no
  variadic-positional parameter. The code pushes the bare \<open>*\<close> whenever there are
  keyword-only parameters, also after \<open>*args\<close>: for the parameter list of
  \<open>def f(a, *args, b=1, **kw)\<close>, which has all four groups, it writes
  \<open>a, *args, *, b=1, **kw\<close>. The groups are in the order positionals, \<open>*args\<close>,
  keyword-only, \<open>**kw\<close>, joined by \<open>", "\<close> and a soft break, but with a \<open>*\<close> too many.
\<close>

theorem printAst_arguments_all_groups:
  "printAst (Path (Some arguments_all_groups) None) =
     Inr (join (Concat [text_lit '', '', Softline])
           [Concat [text_lit ''a''],
            Concat [text_lit ''*'', text_lit ''args''],
            text_lit ''*'',
            Concat [text_lit ''b'', text_lit ''='', text_lit ''1''],
            Concat [text_lit ''**'', text_lit ''kw'']])
   \<and> map_sum id flat_text (printAst (Path (Some arguments_all_groups) None)) =
     Inr (Some ''a, *args, *, b=1, **kw'')"
  by code_simp

subsection \<open>Errors\<close>

text \<open>
  C5. The claim has UnsupportedNodeKind as the only error, raised exactly on a tag that
  is not in the mapping, and a normal fragment in every other case, a missing optional
  field among them. The parameter list of \<open>def f(*, a)\<close> has the tag \<open>arguments\<close>, which
  is in the mapping, and its one keyword-only parameter has no default, which Python
  marks by \<open>None\<close> in \<open>kw_defaults\<close>. There the comparator of the sort in
  \<open>printArguments\<close> reads \<open>col_offset\<close> of \<open>null\<close>, and the printer fails with a
  \<open>TypeError\<close>.
\<close>

theorem printAst_required_kwonly_TypeError:
  "get (Some arguments_required_kwonly) ''ast_type'' = Inr (Some (JStr ''arguments''))
   \<and> printAst (Path (Some arguments_required_kwonly) None) = Inl TypeError"
  by code_simp

end
